theory Spec2Isabelle
  imports Main "HOL-Library.AList"
begin

section \<open>Data model (types/index.ts)\<close>

datatype MessageRole = User | Assistant

datatype AgentType = Orchestrator | Sales | Marketing | Support | Logistics | Human | System

datatype MessageType = TextType | VoiceType | SystemType | ErrorType

datatype MetadataType =
    Agent_switch | Disconnection | Reconnection | Reconnection_failed
  | Offline_queued | Duplicate | Cancellation

text \<open>
  \<open>MessageMetadata\<close> is an open object in the source (\<open>[key: string]: any\<close>). The record
  lists the declared fields and the extra keys the client itself spreads into it
  (\<open>...data\<close> of the cancellation, hand-off and duplicate events).
\<close>

record MessageMetadata =
  md_type :: "MetadataType option"
  md_from_agent :: "AgentType option"
  md_to_agent :: "AgentType option"
  md_reason :: "string option"
  md_attempts :: "nat option"
  md_cancelled_count :: "nat option"
  md_message :: "string option"
  md_original_message :: "string option"
  md_message_id :: "string option"

definition no_metadata :: MessageMetadata where
  "no_metadata = \<lparr> md_type = None, md_from_agent = None, md_to_agent = None,
     md_reason = None, md_attempts = None, md_cancelled_count = None,
     md_message = None, md_original_message = None, md_message_id = None \<rparr>"

record Message =
  role :: MessageRole
  content :: string
  timestamp :: string
  agent :: "AgentType option"
  metadata :: "MessageMetadata option"
  message_id :: "string option"

datatype PendingStatus = Sending | Queued

record PendingMessage =
  pm_message :: string
  pm_status :: PendingStatus
  pm_sent_at :: int
  pm_is_typing :: bool
  pm_queue_position :: "nat option"

record OfflineQueuedMessage =
  oq_message :: string
  oq_type :: MessageType
  oq_queued_at :: int
  oq_message_id :: string

text \<open>
  Keys of the correlation map are \<open>string | number\<close>: a message is keyed by
  \<open>message.message_id || index\<close>, so an absent or empty id falls back to the position.
\<close>

datatype key = KStr string | KNum nat

record CorrelationData =
  correlationNumber :: nat
  color :: "string option"
  isPending :: bool
  isUserMessage :: bool
  replyToMessageId :: "key option"
  pendingData :: "PendingMessage option"

type_synonym cmap = "key \<rightharpoonup> CorrelationData"

section \<open>Correlation engine (hooks/useMessageCorrelation.ts)\<close>

definition COLORS :: "string list" where
  "COLORS = [''#1976d2'', ''#9c27b0'', ''#2e7d32'', ''#ed6c02'', ''#d32f2f'', ''#00796b'']"

text \<open>
  \<open>colors[(number - 1) % colors.length]\<close>. For \<open>number = 0\<close> the index is \<open>-1\<close> and the
  JavaScript read yields \<open>undefined\<close>, here \<open>None\<close>.
\<close>

definition getCorrelationColor :: "nat \<Rightarrow> string option" where
  "getCorrelationColor number =
     (if number = 0 then None else Some (COLORS ! ((number - 1) mod length COLORS)))"

definition messageKey :: "Message \<Rightarrow> nat \<Rightarrow> key" where
  "messageKey message index =
     (case message_id message of
        None \<Rightarrow> KNum index
      | Some s \<Rightarrow> if s = [] then KNum index else KStr s)"

text \<open>
  \<open>xs.forEach((x, index) => ...)\<close> with the mutable variables of the enclosing closure
  as the accumulator.
\<close>

definition forEachFrom :: "nat \<Rightarrow> 'a list \<Rightarrow> ('s \<Rightarrow> 'a \<Rightarrow> nat \<Rightarrow> 's) \<Rightarrow> 's \<Rightarrow> 's" where
  "forEachFrom i xs f s = foldl (\<lambda>acc (index, x). f acc x index) s (enumerate i xs)"

definition forEach :: "'a list \<Rightarrow> ('s \<Rightarrow> 'a \<Rightarrow> nat \<Rightarrow> 's) \<Rightarrow> 's \<Rightarrow> 's" where
  "forEach xs f s = forEachFrom 0 xs f s"

definition userRecord :: "nat \<Rightarrow> CorrelationData" where
  "userRecord n = \<lparr> correlationNumber = n, color = getCorrelationColor n,
     isPending = False, isUserMessage = True, replyToMessageId = None, pendingData = None \<rparr>"

definition replyRecord :: "key \<times> nat \<Rightarrow> CorrelationData" where
  "replyRecord matchedQuestion = \<lparr> correlationNumber = snd matchedQuestion,
     color = getCorrelationColor (snd matchedQuestion),
     isPending = False, isUserMessage = False,
     replyToMessageId = Some (fst matchedQuestion), pendingData = None \<rparr>"

definition pendingRecord :: "nat \<Rightarrow> PendingMessage \<Rightarrow> CorrelationData" where
  "pendingRecord n p = \<lparr> correlationNumber = n, color = getCorrelationColor n,
     isPending = True, isUserMessage = True, replyToMessageId = None, pendingData = Some p \<rparr>"

text \<open>First pass: the state is \<open>(userMessageCounter, correlationMap)\<close>.\<close>

definition numberStep :: "nat \<times> cmap \<Rightarrow> Message \<Rightarrow> nat \<Rightarrow> nat \<times> cmap" where
  "numberStep st message index =
     (case st of (userMessageCounter, correlationMap) \<Rightarrow>
        if role message = User
        then (userMessageCounter + 1,
              correlationMap(messageKey message index \<mapsto> userRecord (userMessageCounter + 1)))
        else st)"

text \<open>
  Second pass of the current variant: the state is \<open>(unansweredQuestions, correlationMap)\<close>;
  \<open>push\<close> appends at the tail and \<open>shift\<close> removes the head.
\<close>

definition matchStep :: "(key \<times> nat) list \<times> cmap \<Rightarrow> Message \<Rightarrow> nat \<Rightarrow> (key \<times> nat) list \<times> cmap" where
  "matchStep st message index =
     (case st of (unansweredQuestions, correlationMap) \<Rightarrow>
        if role message = User then
          (case correlationMap (messageKey message index) of
             Some correlationData \<Rightarrow>
               (unansweredQuestions @ [(messageKey message index, correlationNumber correlationData)],
                correlationMap)
           | None \<Rightarrow> st)
        else if role message = Assistant \<and> agent message \<noteq> Some System then
          (case unansweredQuestions of
             [] \<Rightarrow> st
           | matchedQuestion # rest \<Rightarrow>
               (rest, correlationMap(messageKey message index \<mapsto> replyRecord matchedQuestion)))
        else st)"

text \<open>Third pass, over the entries of the pending map in insertion order.\<close>

definition pendingStep :: "nat \<times> cmap \<Rightarrow> string \<times> PendingMessage \<Rightarrow> nat \<times> cmap" where
  "pendingStep st entry =
     (case st of (pendingCounter, correlationMap) \<Rightarrow>
        (case entry of (messageId, pendingMsg) \<Rightarrow>
           if correlationMap (KStr messageId) = None
           then (pendingCounter + 1,
                 correlationMap(KStr messageId \<mapsto> pendingRecord (pendingCounter + 1) pendingMsg))
           else st))"

definition useMessageCorrelation :: "Message list \<Rightarrow> (string \<times> PendingMessage) list \<Rightarrow> cmap" where
  "useMessageCorrelation messages pendingMessages =
     (let numbered = forEach messages numberStep (0, Map.empty);
          matched = forEach messages matchStep ([], snd numbered)
      in snd (foldl pendingStep (fst numbered, snd matched) pendingMessages))"

text \<open>
  The older variant of the hook links every assistant message to the most recent user
  message. Its second pass keeps \<open>(lastUserMessageId, lastUserCorrelationNumber,
  correlationMap)\<close>; the test \<open>&& lastUserMessageId\<close> is JavaScript truthiness, false for
  \<open>null\<close>, for the number \<open>0\<close> and for the empty string.
\<close>

fun truthy :: "key option \<Rightarrow> bool" where
  "truthy None = False"
| "truthy (Some (KNum n)) = (n \<noteq> 0)"
| "truthy (Some (KStr s)) = (s \<noteq> [])"

definition lastUserStep :: "key option \<times> nat \<times> cmap \<Rightarrow> Message \<Rightarrow> nat \<Rightarrow> key option \<times> nat \<times> cmap" where
  "lastUserStep st message index =
     (case st of (lastUserMessageId, lastUserCorrelationNumber, correlationMap) \<Rightarrow>
        if role message = User then
          (case correlationMap (messageKey message index) of
             Some correlationData \<Rightarrow>
               (Some (messageKey message index), correlationNumber correlationData, correlationMap)
           | None \<Rightarrow> (Some (messageKey message index), lastUserCorrelationNumber, correlationMap))
        else if role message = Assistant \<and> truthy lastUserMessageId then
          (case lastUserMessageId of
             Some k \<Rightarrow>
               (lastUserMessageId, lastUserCorrelationNumber,
                correlationMap(messageKey message index \<mapsto> replyRecord (k, lastUserCorrelationNumber)))
           | None \<Rightarrow> st)
        else st)"

definition useMessageCorrelation_v1 :: "Message list \<Rightarrow> (string \<times> PendingMessage) list \<Rightarrow> cmap" where
  "useMessageCorrelation_v1 messages pendingMessages =
     (let numbered = forEach messages numberStep (0, Map.empty);
          linked = forEach messages lastUserStep (None, 0, snd numbered)
      in snd (foldl pendingStep (fst numbered, snd (snd linked)) pendingMessages))"

section \<open>Constants (config/constants.ts)\<close>

definition DUPLICATE_SEND_THROTTLE_MS :: int where "DUPLICATE_SEND_THROTTLE_MS = 2000"
definition SENDING_STATE_DURATION_MS :: nat where "SENDING_STATE_DURATION_MS = 1000"
definition ERROR_AUTO_CLEAR_MS :: nat where "ERROR_AUTO_CLEAR_MS = 2000"

definition CONNECTION_LOST :: string where
  "CONNECTION_LOST = ''Connection lost. Attempting to reconnect...''"
definition RECONNECTING :: string where
  "RECONNECTING = ''Reconnecting...''"
definition CANNOT_RECONNECT :: string where
  "CANNOT_RECONNECT = ''Cannot reconnect to server. Please refresh the page.''"
definition SEND_TOO_FAST :: string where
  "SEND_TOO_FAST = ''Please wait before sending the same message again''"
definition OFFLINE :: string where
  "OFFLINE = ''You are offline. Messages will be sent when connection is restored.''"
definition ALREADY_PROCESSING :: string where
  "ALREADY_PROCESSING = ''This message is already being processed.''"
definition RECONNECTED :: string where
  "RECONNECTED = ''Reconnected successfully!''"

section \<open>JavaScript string helpers\<close>

text \<open>
  Strings are lists of 8-bit characters, read as the code units U+0000 to U+00FF.
  \<open>trim\<close> removes the white space and line terminators of that range from both ends,
  \<open>toLowerCase\<close> maps the upper-case letters of that range, and a template literal
  \<open>${n}\<close> prints a number in decimal.
\<close>

definition isWhiteSpace :: "char \<Rightarrow> bool" where
  "isWhiteSpace c = (of_char c \<in> {9, 10, 11, 12, 13, 32, 160 :: nat})"

definition trim :: "string \<Rightarrow> string" where
  "trim s = rev (dropWhile isWhiteSpace (rev (dropWhile isWhiteSpace s)))"

definition toLowerChar :: "char \<Rightarrow> char" where
  "toLowerChar c =
     (let n = (of_char c :: nat)
      in if (65 \<le> n \<and> n \<le> 90) \<or> (192 \<le> n \<and> n \<le> 222 \<and> n \<noteq> 215)
         then char_of (n + 32) else c)"

definition toLowerCase :: "string \<Rightarrow> string" where
  "toLowerCase s = map toLowerChar s"

definition digitChar :: "nat \<Rightarrow> char" where
  "digitChar d = char_of (48 + d)"

function showNat :: "nat \<Rightarrow> string" where
  "showNat n = (if n < 10 then [digitChar n] else showNat (n div 10) @ [digitChar (n mod 10)])"
  by pat_completeness auto
termination
  by (relation "measure id") auto

declare showNat.simps [simp del]

definition showInt :: "int \<Rightarrow> string" where
  "showInt i = (if i < 0 then CHR ''-'' # showNat (nat (- i)) else showNat (nat i))"

text \<open>Truthiness of an optional string: \<open>undefined\<close> and the empty string are falsy.\<close>

definition truthyStr :: "string option \<Rightarrow> bool" where
  "truthyStr x = (case x of None \<Rightarrow> False | Some s \<Rightarrow> s \<noteq> [])"

text \<open>The agent tags as the strings the template literals print.\<close>

fun agentName :: "AgentType \<Rightarrow> string" where
  "agentName Orchestrator = ''orchestrator''"
| "agentName Sales = ''sales''"
| "agentName Marketing = ''marketing''"
| "agentName Support = ''support''"
| "agentName Logistics = ''logistics''"
| "agentName Human = ''human''"
| "agentName System = ''system''"

section \<open>Socket hook state (hooks/useSocket.ts)\<close>

text \<open>
  Payloads of the inbound transport events.
\<close>

record SocketResponse =
  sr_message :: string
  sr_agent :: AgentType
  sr_timestamp :: "string option"
  sr_metadata :: "MessageMetadata option"
  sr_message_id :: "string option"

record SocketError =
  se_message :: string
  se_message_id :: "string option"
  se_code :: "string option"

record AgentSwitchData =
  as_from_agent :: AgentType
  as_to_agent :: AgentType
  as_reason :: string
  as_message_id :: "string option"

record MessageQueuedData =
  mq_message_id :: string
  mq_queue_position :: nat

record MessageCancelledData =
  mc_message_id :: string
  mc_success :: bool

record AllMessagesCancelledData =
  ac_cancelled_count :: nat
  ac_message :: "string option"

record TypingData =
  ty_is_typing :: bool
  ty_message_id :: "string option"

text \<open>What the hook hands to the transport with \<open>socket.emit\<close>.\<close>

datatype Outbound =
    EmitMessage string MessageType
  | EmitCancelMessage string
  | EmitCancelAllMessages

text \<open>The two callbacks the hook schedules with \<open>setTimeout\<close>.\<close>

datatype TimerAction = ClearError | ClearSending

text \<open>
  The readings a handler takes from its environment: \<open>Date.now()\<close>,
  \<open>new Date().toISOString()\<close> and \<open>Math.random().toString(36).substring(2, 11)\<close>.
  All readings of the clock within one handler call are taken at the same instant.
\<close>

record Clock =
  clk_now :: int
  clk_iso :: string
  clk_random :: string

text \<open>
  The state of the hook: every \<open>useState\<close> cell and every \<open>useRef\<close> cell, together with
  the trace of emitted transport events and the scheduled timers. \<open>socket\<close> tells whether
  the \<open>socket\<close> cell holds the socket instance (it is \<open>null\<close> before the mount effect).
  The pending map is an association list in insertion order, as a JavaScript \<open>Map\<close>
  iterates.
\<close>

record SocketState =
  socket :: bool
  isConnected :: bool
  isReconnecting :: bool
  reconnectAttempt :: nat
  sessionId :: "string option"
  messages :: "Message list"
  isTyping :: bool
  currentAgent :: "AgentType option"
  error :: "string option"
  pendingMessages :: "(string \<times> PendingMessage) list"
  offlineQueue :: "OfflineQueuedMessage list"
  isSending :: bool
  lastSentMessage :: "string option"
  lastSentTime :: int
  messagesRef :: "Message list"
  pendingMessagesRef :: "(string \<times> PendingMessage) list"
  offlineQueueRef :: "OfflineQueuedMessage list"
  emitted :: "Outbound list"
  timers :: "(nat \<times> TimerAction) list"

definition initialState :: SocketState where
  "initialState = \<lparr> socket = True, isConnected = False, isReconnecting = False,
     reconnectAttempt = 0, sessionId = None, messages = [], isTyping = False,
     currentAgent = None, error = None, pendingMessages = [], offlineQueue = [],
     isSending = False, lastSentMessage = None, lastSentTime = 0,
     messagesRef = [], pendingMessagesRef = [], offlineQueueRef = [],
     emitted = [], timers = [] \<rparr>"

definition systemMessage :: "Clock \<Rightarrow> string \<Rightarrow> MessageMetadata \<Rightarrow> string option \<Rightarrow> Message" where
  "systemMessage c text md mid = \<lparr> role = Assistant, content = text, timestamp = clk_iso c,
     agent = Some System, metadata = Some md, message_id = mid \<rparr>"

definition emitQueued :: "OfflineQueuedMessage \<Rightarrow> Outbound" where
  "emitQueued queuedMsg = EmitMessage (oq_message queuedMsg) (oq_type queuedMsg)"

definition reconnectionNotice :: "Clock \<Rightarrow> nat \<Rightarrow> Message" where
  "reconnectionNotice c n =
     systemMessage c (''Reconnected! Sending '' @ showNat n @ '' message(s) from offline queue...'')
       (no_metadata\<lparr> md_type := Some Reconnection \<rparr>) None"

definition on_connect :: "Clock \<Rightarrow> SocketState \<Rightarrow> SocketState" where
  "on_connect c s =
     (let s1 = s\<lparr> isConnected := True, isReconnecting := False, reconnectAttempt := 0,
                  error := None \<rparr>
      in if length (offlineQueueRef s) > 0
         then s1\<lparr> messages := messages s1 @ [reconnectionNotice c (length (offlineQueueRef s))],
                  emitted := emitted s1 @ map emitQueued (offlineQueueRef s),
                  offlineQueue := [] \<rparr>
         else s1)"

definition on_disconnect :: "Clock \<Rightarrow> string \<Rightarrow> SocketState \<Rightarrow> SocketState" where
  "on_disconnect c reason s =
     s\<lparr> isConnected := False, error := Some CONNECTION_LOST,
        messages := messages s @
          [systemMessage c CONNECTION_LOST
             (no_metadata\<lparr> md_type := Some Disconnection, md_reason := Some reason \<rparr>) None] \<rparr>"

definition on_reconnect :: "Clock \<Rightarrow> nat \<Rightarrow> SocketState \<Rightarrow> SocketState" where
  "on_reconnect c attempt s =
     s\<lparr> isReconnecting := False, reconnectAttempt := 0,
        messages := messages s @
          [systemMessage c
             (RECONNECTED @ '' '' @
                (if attempt > 1 then ''(after '' @ showNat attempt @ '' attempts)'' else []))
             (no_metadata\<lparr> md_type := Some Reconnection, md_attempts := Some attempt \<rparr>) None] \<rparr>"

definition on_reconnect_attempt :: "nat \<Rightarrow> SocketState \<Rightarrow> SocketState" where
  "on_reconnect_attempt attempt s =
     s\<lparr> isReconnecting := True, reconnectAttempt := attempt,
        error := Some (RECONNECTING @ '' (attempt '' @ showNat attempt @ '')'') \<rparr>"

definition on_reconnect_error :: "string \<Rightarrow> SocketState \<Rightarrow> SocketState" where
  "on_reconnect_error msg s = s\<lparr> error := Some (''Reconnection failed: '' @ msg) \<rparr>"

definition on_reconnect_failed :: "Clock \<Rightarrow> SocketState \<Rightarrow> SocketState" where
  "on_reconnect_failed c s =
     s\<lparr> isReconnecting := False, error := Some CANNOT_RECONNECT,
        messages := messages s @
          [systemMessage c CANNOT_RECONNECT
             (no_metadata\<lparr> md_type := Some Reconnection_failed \<rparr>) None] \<rparr>"

definition on_connected :: "string \<Rightarrow> SocketState \<Rightarrow> SocketState" where
  "on_connected session_id s = s\<lparr> sessionId := Some session_id \<rparr>"

definition on_message_queued :: "MessageQueuedData \<Rightarrow> SocketState \<Rightarrow> SocketState" where
  "on_message_queued d s =
     s\<lparr> pendingMessages :=
          AList.map_entry (mq_message_id d)
            (\<lambda>pendingMsg. pendingMsg\<lparr> pm_status := Queued,
                                     pm_queue_position := Some (mq_queue_position d) \<rparr>)
            (pendingMessages s) \<rparr>"

text \<open>
  The reply and error handlers queue two functional updates of the pending map; the
  second one sees the map the first one returned and clears the typing flag when it is
  empty.
\<close>

definition stopTypingIfIdle :: "SocketState \<Rightarrow> SocketState" where
  "stopTypingIfIdle s = (if length (pendingMessages s) = 0 then s\<lparr> isTyping := False \<rparr> else s)"

definition resolveIfId :: "string option \<Rightarrow> SocketState \<Rightarrow> SocketState" where
  "resolveIfId mid s =
     (case mid of
        Some i \<Rightarrow> if i \<noteq> [] then s\<lparr> pendingMessages := AList.delete i (pendingMessages s) \<rparr> else s
      | None \<Rightarrow> s)"

definition on_response :: "Clock \<Rightarrow> SocketResponse \<Rightarrow> SocketState \<Rightarrow> SocketState" where
  "on_response c d s =
     (let newMessage = \<lparr> role = Assistant, content = sr_message d,
            timestamp = (if truthyStr (sr_timestamp d) then the (sr_timestamp d) else clk_iso c),
            agent = Some (sr_agent d), metadata = sr_metadata d,
            message_id = sr_message_id d \<rparr>
      in stopTypingIfIdle (resolveIfId (sr_message_id d)
           (s\<lparr> messages := messages s @ [newMessage], currentAgent := Some (sr_agent d) \<rparr>)))"

definition on_typing :: "TypingData \<Rightarrow> SocketState \<Rightarrow> SocketState" where
  "on_typing d s =
     (let s1 = (if truthyStr (ty_message_id d)
                then s\<lparr> pendingMessages :=
                         AList.map_entry (the (ty_message_id d))
                           (\<lambda>pendingMsg. pendingMsg\<lparr> pm_is_typing := ty_is_typing d \<rparr>)
                           (pendingMessages s) \<rparr>
                else s)
      in s1\<lparr> isTyping := (ty_is_typing d \<or> length (pendingMessagesRef s) > 0) \<rparr>)"

definition on_agent_switch :: "Clock \<Rightarrow> AgentSwitchData \<Rightarrow> SocketState \<Rightarrow> SocketState" where
  "on_agent_switch c d s =
     s\<lparr> currentAgent := Some (as_to_agent d),
        messages := messages s @
          [systemMessage c
             (''Transferring you to our '' @ agentName (as_to_agent d) @ '' specialist...'')
             (no_metadata\<lparr> md_type := Some Agent_switch, md_from_agent := Some (as_from_agent d),
                md_to_agent := Some (as_to_agent d), md_reason := Some (as_reason d),
                md_message_id := as_message_id d \<rparr>)
             (as_message_id d)] \<rparr>"

definition on_error :: "SocketError \<Rightarrow> SocketState \<Rightarrow> SocketState" where
  "on_error d s =
     stopTypingIfIdle (resolveIfId (se_message_id d) (s\<lparr> error := Some (se_message d) \<rparr>))"

definition on_message_cancelled :: "MessageCancelledData \<Rightarrow> SocketState \<Rightarrow> SocketState" where
  "on_message_cancelled d s =
     (let s1 = s\<lparr> pendingMessages := AList.delete (mc_message_id d) (pendingMessages s),
                  messages := filter (\<lambda>msg. message_id msg \<noteq> Some (mc_message_id d)) (messages s) \<rparr>
      in if length (pendingMessagesRef s) \<le> 1 then s1\<lparr> isTyping := False \<rparr> else s1)"

definition cancellationNotice :: "Clock \<Rightarrow> AllMessagesCancelledData \<Rightarrow> Message" where
  "cancellationNotice c d =
     systemMessage c
       (if truthyStr (ac_message d) then the (ac_message d)
        else ''Cancelled '' @ showNat (ac_cancelled_count d) @ '' pending message(s)'')
       (no_metadata\<lparr> md_type := Some Cancellation,
          md_cancelled_count := Some (ac_cancelled_count d), md_message := ac_message d \<rparr>)
       None"

definition on_all_messages_cancelled :: "Clock \<Rightarrow> AllMessagesCancelledData \<Rightarrow> SocketState \<Rightarrow> SocketState" where
  "on_all_messages_cancelled c d s =
     s\<lparr> pendingMessages := [], isTyping := False,
        messages := messages s @ [cancellationNotice c d] \<rparr>"

definition on_message_duplicate :: "Clock \<Rightarrow> string \<Rightarrow> SocketState \<Rightarrow> SocketState" where
  "on_message_duplicate c original_message s =
     s\<lparr> messages := messages s @
          [systemMessage c ALREADY_PROCESSING
             (no_metadata\<lparr> md_type := Some Duplicate,
                md_original_message := Some original_message \<rparr>) None],
        isSending := False \<rparr>"

section \<open>Operations of the hook\<close>

definition tempMessageId :: "Clock \<Rightarrow> string" where
  "tempMessageId c = ''temp_'' @ showInt (clk_now c) @ ''_'' @ clk_random c"

definition userMessage :: "Clock \<Rightarrow> string \<Rightarrow> Message" where
  "userMessage c message = \<lparr> role = User, content = message, timestamp = clk_iso c,
     agent = None, metadata = None, message_id = Some (tempMessageId c) \<rparr>"

definition offlineMessage :: "Clock \<Rightarrow> Message" where
  "offlineMessage c = systemMessage c OFFLINE (no_metadata\<lparr> md_type := Some Offline_queued \<rparr>) None"

definition offlineEntry :: "Clock \<Rightarrow> string \<Rightarrow> OfflineQueuedMessage" where
  "offlineEntry c message = \<lparr> oq_message = message, oq_type = TextType,
     oq_queued_at = clk_now c, oq_message_id = tempMessageId c \<rparr>"

definition pendingEntry :: "Clock \<Rightarrow> string \<Rightarrow> PendingMessage" where
  "pendingEntry c message = \<lparr> pm_message = message, pm_status = Sending,
     pm_sent_at = clk_now c, pm_is_typing = False, pm_queue_position = None \<rparr>"

text \<open>
  \<open>sendMessage\<close>: the guards in the order of the source (blank content, duplicate
  throttle, send in flight), then the offline branch, then the dispatch.
\<close>

definition sendMessage :: "Clock \<Rightarrow> string \<Rightarrow> SocketState \<Rightarrow> SocketState" where
  "sendMessage c message s =
     (if trim message = [] then s
      else
        let timeSinceLastSend = clk_now c - lastSentTime s;
            normalizedMessage = toLowerCase (trim message)
        in if lastSentMessage s = Some normalizedMessage
              \<and> timeSinceLastSend < DUPLICATE_SEND_THROTTLE_MS
           then s\<lparr> error := Some SEND_TOO_FAST,
                   timers := timers s @ [(ERROR_AUTO_CLEAR_MS, ClearError)] \<rparr>
           else if isSending s then s
           else
             let s1 = s\<lparr> lastSentMessage := Some normalizedMessage,
                         lastSentTime := clk_now c,
                         isSending := True,
                         messages := messages s @ [userMessage c message],
                         error := None \<rparr>
             in if \<not> socket s \<or> \<not> isConnected s
                then s1\<lparr> offlineQueue := offlineQueue s1 @ [offlineEntry c message],
                         messages := messages s1 @ [offlineMessage c],
                         isSending := False \<rparr>
                else s1\<lparr> pendingMessages :=
                           AList.update (tempMessageId c) (pendingEntry c message)
                             (pendingMessages s1),
                         emitted := emitted s1 @ [EmitMessage message TextType],
                         isTyping := True,
                         timers := timers s1 @ [(SENDING_STATE_DURATION_MS, ClearSending)] \<rparr>)"

definition clearMessages :: "SocketState \<Rightarrow> SocketState" where
  "clearMessages s = s\<lparr> messages := [], currentAgent := None, error := None,
     pendingMessages := [] \<rparr>"

definition cancelMessage :: "string \<Rightarrow> SocketState \<Rightarrow> SocketState" where
  "cancelMessage messageId s =
     (if \<not> socket s \<or> \<not> isConnected s then s
      else s\<lparr> emitted := emitted s @ [EmitCancelMessage messageId] \<rparr>)"

definition cancelAllMessages :: "SocketState \<Rightarrow> SocketState" where
  "cancelAllMessages s =
     (if \<not> socket s \<or> \<not> isConnected s then s
      else s\<lparr> emitted := emitted s @ [EmitCancelAllMessages] \<rparr>)"

text \<open>A scheduled timer fires: it is removed and its callback runs.\<close>

definition timerFires :: "nat \<times> TimerAction \<Rightarrow> SocketState \<Rightarrow> SocketState" where
  "timerFires t s =
     (if t \<in> set (timers s)
      then (case snd t of
              ClearError \<Rightarrow> s\<lparr> timers := remove1 t (timers s), error := None \<rparr>
            | ClearSending \<Rightarrow> s\<lparr> timers := remove1 t (timers s), isSending := False \<rparr>)
      else s)"

text \<open>
  After a handler has run the component renders again and its three effects copy the
  log, the pending map and the offline queue into their refs.
\<close>

definition render :: "SocketState \<Rightarrow> SocketState" where
  "render s = s\<lparr> messagesRef := messages s, pendingMessagesRef := pendingMessages s,
     offlineQueueRef := offlineQueue s \<rparr>"

datatype Event =
    Connect
  | Disconnect string
  | Reconnect nat
  | ReconnectAttempt nat
  | ReconnectError string
  | ReconnectFailed
  | Connected string
  | MessageQueued MessageQueuedData
  | Response SocketResponse
  | Typing TypingData
  | AgentSwitch AgentSwitchData
  | Error SocketError
  | MessageCancelled MessageCancelledData
  | AllMessagesCancelled AllMessagesCancelledData
  | MessageDuplicate string
  | SendMessage string
  | ClearMessages
  | CancelMessage string
  | CancelAllMessages
  | TimerFires "nat \<times> TimerAction"

fun dispatch :: "Clock \<Rightarrow> Event \<Rightarrow> SocketState \<Rightarrow> SocketState" where
  "dispatch c Connect s = on_connect c s"
| "dispatch c (Disconnect reason) s = on_disconnect c reason s"
| "dispatch c (Reconnect attempt) s = on_reconnect c attempt s"
| "dispatch c (ReconnectAttempt attempt) s = on_reconnect_attempt attempt s"
| "dispatch c (ReconnectError msg) s = on_reconnect_error msg s"
| "dispatch c ReconnectFailed s = on_reconnect_failed c s"
| "dispatch c (Connected session_id) s = on_connected session_id s"
| "dispatch c (MessageQueued d) s = on_message_queued d s"
| "dispatch c (Response d) s = on_response c d s"
| "dispatch c (Typing d) s = on_typing d s"
| "dispatch c (AgentSwitch d) s = on_agent_switch c d s"
| "dispatch c (Error d) s = on_error d s"
| "dispatch c (MessageCancelled d) s = on_message_cancelled d s"
| "dispatch c (AllMessagesCancelled d) s = on_all_messages_cancelled c d s"
| "dispatch c (MessageDuplicate original_message) s = on_message_duplicate c original_message s"
| "dispatch c (SendMessage message) s = sendMessage c message s"
| "dispatch c ClearMessages s = clearMessages s"
| "dispatch c (CancelMessage messageId) s = cancelMessage messageId s"
| "dispatch c CancelAllMessages s = cancelAllMessages s"
| "dispatch c (TimerFires t) s = timerFires t s"

text \<open>
  \<open>handle\<close> is a handler followed by a render: React commits, and the three effects
  run, before the next event is handled. \<open>run\<close> replays a list of events that way, each
  with the clock readings its handler takes.
\<close>

definition handle :: "Clock \<Rightarrow> Event \<Rightarrow> SocketState \<Rightarrow> SocketState" where
  "handle c e s = render (dispatch c e s)"

fun run :: "(Clock \<times> Event) list \<Rightarrow> SocketState \<Rightarrow> SocketState" where
  "run [] s = s"
| "run ((c, e) # es) s = run es (handle c e s)"

text \<open>
  The states a sequence of admitted events leads to from the initial state when every
  handler is followed by a render. \<open>admit s e\<close> tells which event may happen in which
  state.
\<close>

inductive reach :: "(SocketState \<Rightarrow> Event \<Rightarrow> bool) \<Rightarrow> SocketState \<Rightarrow> bool"
  for admit :: "SocketState \<Rightarrow> Event \<Rightarrow> bool" where
  reach_init: "reach admit initialState"
| reach_step: "reach admit s \<Longrightarrow> admit s e \<Longrightarrow> reach admit (handle c e s)"

definition anyEvent :: "SocketState \<Rightarrow> Event \<Rightarrow> bool" where
  "anyEvent s e = True"

text \<open>
  React batches the state updates of handlers that run before it renders again, and the
  refs are written only by the effects of a render. Inbound events handled back to back
  therefore read refs that still show the state of the last render, while the functional
  updates \<open>setPendingMessages (prev \<Rightarrow> \<dots>)\<close> see the current state. \<open>reachable\<close> lets
  a render happen after any number of handlers; \<open>reach\<close> is the case of a render after
  each of them.

  The callbacks \<open>sendMessage\<close>, \<open>cancelMessage\<close> and \<open>cancelAllMessages\<close> read \<open>socket\<close>,
  \<open>isConnected\<close> and \<open>isSending\<close> from the closure of the render that created them, so
  between two renders they may see older values of these three cells than the handlers
  have set since. \<open>reachable\<close> covers every such run, and more, by letting the three cells
  take any value (\<open>reachable_closure\<close>): a callback that ran on older values is that step,
  the callback, and that step again.
\<close>

inductive reachable :: "(SocketState \<Rightarrow> Event \<Rightarrow> bool) \<Rightarrow> SocketState \<Rightarrow> bool"
  for admit :: "SocketState \<Rightarrow> Event \<Rightarrow> bool" where
  reachable_init: "reachable admit initialState"
| reachable_event: "reachable admit s \<Longrightarrow> admit s e \<Longrightarrow> reachable admit (dispatch c e s)"
| reachable_render: "reachable admit s \<Longrightarrow> reachable admit (render s)"
| reachable_closure:
    "reachable admit s \<Longrightarrow> reachable admit (s\<lparr> socket := so, isConnected := co, isSending := se \<rparr>)"

text \<open>
  The refs mirror the state once the effects of a render have run.
\<close>

definition synced :: "SocketState \<Rightarrow> bool" where
  "synced s = (messagesRef s = messages s \<and> pendingMessagesRef s = pendingMessages s
     \<and> offlineQueueRef s = offlineQueue s)"

text \<open>The guards of \<open>sendMessage\<close>, named.\<close>

definition throttled :: "Clock \<Rightarrow> string \<Rightarrow> SocketState \<Rightarrow> bool" where
  "throttled c message s = (lastSentMessage s = Some (toLowerCase (trim message))
     \<and> clk_now c - lastSentTime s < DUPLICATE_SEND_THROTTLE_MS)"

definition accepted :: "Clock \<Rightarrow> string \<Rightarrow> SocketState \<Rightarrow> bool" where
  "accepted c message s = (trim message \<noteq> [] \<and> \<not> throttled c message s \<and> \<not> isSending s)"

section \<open>Admitted events\<close>

text \<open>
  Every event but \<open>clearMessages\<close>, and a typing signal with \<open>is_typing = true\<close> only
  while some message is pending.
\<close>

fun quietTyping :: "SocketState \<Rightarrow> Event \<Rightarrow> bool" where
  "quietTyping s (Typing d) = (ty_is_typing d \<longrightarrow> pendingMessages s \<noteq> [])"
| "quietTyping s ClearMessages = False"
| "quietTyping s e = True"

text \<open>
  The two handlers that read the pending map through \<open>pendingMessagesRef\<close> instead of a
  functional update (\<open>typing\<close> and \<open>message_cancelled\<close>), and the condition under which
  what they read is not out of date with respect to resolved entries: the ref holds no
  more entries than the pending map. That is so whenever the effect has run since the
  last entry was resolved, in particular right after a render.
\<close>

fun readsPendingRef :: "Event \<Rightarrow> bool" where
  "readsPendingRef (Typing d) = True"
| "readsPendingRef (MessageCancelled d) = True"
| "readsPendingRef e = False"

definition refWithinPending :: "SocketState \<Rightarrow> bool" where
  "refWithinPending s = (length (pendingMessagesRef s) \<le> length (pendingMessages s))"

definition quietCurrent :: "SocketState \<Rightarrow> Event \<Rightarrow> bool" where
  "quietCurrent s e = (quietTyping s e \<and> (readsPendingRef e \<longrightarrow> refWithinPending s))"

text \<open>The events that resolve pending entries.\<close>

fun resolves :: "Event \<Rightarrow> bool" where
  "resolves (Response d) = True"
| "resolves (Error d) = True"
| "resolves (MessageCancelled d) = True"
| "resolves (AllMessagesCancelled d) = True"
| "resolves e = False"

section \<open>Vocabulary for the correlation map\<close>

text \<open>
  The three kinds of message the matching pass tells apart: user messages, assistant
  messages that take part in the matching (any agent tag but \<open>system\<close>, or none), and
  system notices.
\<close>

definition isUser :: "Message \<Rightarrow> bool" where
  "isUser m = (role m = User)"

definition isReply :: "Message \<Rightarrow> bool" where
  "isReply m = (role m = Assistant \<and> agent m \<noteq> Some System)"

definition isSystemNotice :: "Message \<Rightarrow> bool" where
  "isSystemNotice m = (role m = Assistant \<and> agent m = Some System)"

text \<open>
  The keys, in log order, of the messages of a kind, for a log whose first message has
  position \<open>i\<close>; and the non-empty message ids of the messages of a kind.
\<close>

definition keysFrom :: "nat \<Rightarrow> (Message \<Rightarrow> bool) \<Rightarrow> Message list \<Rightarrow> key list" where
  "keysFrom i P ms =
     map (\<lambda>(index, m). messageKey m index) (filter (\<lambda>(index, m). P m) (enumerate i ms))"

definition userKeys :: "Message list \<Rightarrow> key list" where
  "userKeys ms = keysFrom 0 isUser ms"

definition replyKeys :: "Message list \<Rightarrow> key list" where
  "replyKeys ms = keysFrom 0 isReply ms"

definition idsOf :: "(Message \<Rightarrow> bool) \<Rightarrow> Message list \<Rightarrow> string list" where
  "idsOf P ms = map (\<lambda>m. the (message_id m)) (filter (\<lambda>m. P m \<and> truthyStr (message_id m)) ms)"

text \<open>The reply-to link the correlation map holds for a key, if any.\<close>

definition linkOf :: "cmap \<Rightarrow> key \<Rightarrow> key option" where
  "linkOf cm k = (case cm k of None \<Rightarrow> None | Some d \<Rightarrow> replyToMessageId d)"

text \<open>
  The first-in first-out discipline on positions alone: for every matching assistant
  message, in log order, the ordinal of the user message it takes, \<open>u\<close> user messages
  having been seen and \<open>b\<close> of them taken so far.
\<close>

fun slots :: "nat \<Rightarrow> nat \<Rightarrow> Message list \<Rightarrow> nat option list" where
  "slots u b [] = []"
| "slots u b (m # ms) =
     (if isUser m then slots (Suc u) b ms
      else if isReply m then (if b < u then Some b # slots u (Suc b) ms else None # slots u b ms)
      else slots u b ms)"

text \<open>The number of taken slots.\<close>

definition nbound :: "nat option list \<Rightarrow> nat" where
  "nbound sl = length (filter (\<lambda>x. x \<noteq> None) sl)"

text \<open>
  The user messages before position \<open>i\<close> that no matching assistant message before
  position \<open>i\<close> is linked to, oldest first.
\<close>

definition unanswered :: "cmap \<Rightarrow> Message list \<Rightarrow> nat \<Rightarrow> key list" where
  "unanswered cm msgs i =
     filter (\<lambda>u. Some u \<notin> set (map (linkOf cm) (replyKeys (take i msgs)))) (userKeys (take i msgs))"

text \<open>
  In every prefix of the log there are at least as many user messages as matching
  assistant messages: every reply comes after a question that is still open.
\<close>

definition repliesKeepPace :: "Message list \<Rightarrow> bool" where
  "repliesKeepPace msgs =
     (\<forall>n \<le> length msgs. length (filter isReply (take n msgs)) \<le> length (filter isUser (take n msgs)))"

text \<open>
  The pairs the matching pass forms, as (key of the assistant message, key of the user
  message it is matched to): a user message is pushed on the queue \<open>q\<close>, a matching
  assistant message takes the head of the queue if there is one. \<open>echoesInTurn\<close>: every
  matched assistant message that carries the id of a user message carries the id of the
  user message it is matched to, as a reply does that echoes the id of the question it
  answers and arrives in its turn.
\<close>

fun pairing :: "key list \<Rightarrow> nat \<Rightarrow> Message list \<Rightarrow> (key \<times> key) list" where
  "pairing q i [] = []"
| "pairing q i (m # ms) =
     (if isUser m then pairing (q @ [messageKey m i]) (Suc i) ms
      else if isReply m then
        (case q of
           [] \<Rightarrow> pairing [] (Suc i) ms
         | u # rest \<Rightarrow> (messageKey m i, u) # pairing rest (Suc i) ms)
      else pairing q (Suc i) ms)"

definition echoesInTurn :: "Message list \<Rightarrow> bool" where
  "echoesInTurn msgs =
     list_all (\<lambda>(r, u). r \<in> set (userKeys msgs) \<longrightarrow> r = u) (pairing [] 0 msgs)"

text \<open>
  Removing the message at position \<open>n\<close> moves the later positions down by one;
  \<open>shiftIndex n\<close> maps a position of the shorter log to the position the same message has
  in the longer one, and \<open>shiftKey\<close>, \<open>shiftRecord\<close> carry that over to positional keys
  and to the links of a record. \<open>shifted n cm cm'\<close>: the map \<open>cm\<close> is \<open>cm'\<close> under that
  renumbering and holds nothing at position \<open>n\<close>.
\<close>

definition shiftIndex :: "nat \<Rightarrow> nat \<Rightarrow> nat" where
  "shiftIndex n j = (if j < n then j else Suc j)"

definition shiftKey :: "nat \<Rightarrow> key \<Rightarrow> key" where
  "shiftKey n k = (case k of KStr s \<Rightarrow> KStr s | KNum j \<Rightarrow> KNum (shiftIndex n j))"

definition shiftRecord :: "nat \<Rightarrow> CorrelationData \<Rightarrow> CorrelationData" where
  "shiftRecord n d = d\<lparr> replyToMessageId := map_option (shiftKey n) (replyToMessageId d) \<rparr>"

definition shifted :: "nat \<Rightarrow> cmap \<Rightarrow> cmap \<Rightarrow> bool" where
  "shifted n cm cm' = ((\<forall>k. cm (shiftKey n k) = map_option (shiftRecord n) (cm' k)) \<and> cm (KNum n) = None)"

text \<open>
  Logs on which the two variants of the matching pass do the same: assistant messages
  first, then pairs of a user message and a non-system reply, then user messages only;
  and the log does not start with a user message without id (its key would be the
  number 0, which the older variant reads as no user message at all).
\<close>

fun pairsThenUsers :: "Message list \<Rightarrow> bool" where
  "pairsThenUsers [] = True"
| "pairsThenUsers [m] = isUser m"
| "pairsThenUsers (m # r # ms) =
     (isUser m \<and> ((isReply r \<and> pairsThenUsers ms) \<or> list_all isUser (r # ms)))"

definition alternating :: "Message list \<Rightarrow> bool" where
  "alternating msgs =
     (pairsThenUsers (dropWhile (\<lambda>m. role m = Assistant) msgs)
      \<and> (msgs \<noteq> [] \<longrightarrow> isUser (hd msgs) \<longrightarrow> truthyStr (message_id (hd msgs))))"

section \<open>Example runs and logs\<close>

definition clockAt :: "int \<Rightarrow> Clock" where
  "clockAt t = \<lparr> clk_now = t, clk_iso = ''2025-01-01T00:00:00.000Z'', clk_random = ''k3j9x2m1q'' \<rparr>"

text \<open>Two sends while disconnected.\<close>

definition offlineTwo :: SocketState where
  "offlineTwo = run [(clockAt 1000, SendMessage ''first''), (clockAt 5000, SendMessage ''second'')]
     initialState"

text \<open>Two sends while connected, the sending flag of the first one cleared in between.\<close>

definition connectedTwo :: SocketState where
  "connectedTwo = run [(clockAt 1000, Connect), (clockAt 2000, SendMessage ''first''),
     (clockAt 3500, TimerFires (SENDING_STATE_DURATION_MS, ClearSending)),
     (clockAt 4000, SendMessage ''second'')] initialState"

definition typingOnly :: TypingData where
  "typingOnly = \<lparr> ty_is_typing = True, ty_message_id = None \<rparr>"

definition cancelTwo :: AllMessagesCancelledData where
  "cancelTwo = \<lparr> ac_cancelled_count = 2, ac_message = None \<rparr>"

definition replyFirst :: SocketResponse where
  "replyFirst = \<lparr> sr_message = ''answer'', sr_agent = Sales, sr_timestamp = None,
     sr_metadata = None, sr_message_id = Some ''temp_2000_k3j9x2m1q'' \<rparr>"

text \<open>
  A connect and its render, then a send whose render has not happened yet; the
  cancellations of the two sends, and a typing signal that ends.
\<close>

definition sentOne :: SocketState where
  "sentOne = dispatch (clockAt 2000) (SendMessage ''first'')
     (handle (clockAt 1000) Connect initialState)"

definition cancelFirst :: MessageCancelledData where
  "cancelFirst = \<lparr> mc_message_id = ''temp_2000_k3j9x2m1q'', mc_success = True \<rparr>"

definition cancelSecond :: MessageCancelledData where
  "cancelSecond = \<lparr> mc_message_id = ''temp_4000_k3j9x2m1q'', mc_success = True \<rparr>"

definition typingOff :: TypingData where
  "typingOff = \<lparr> ty_is_typing = False, ty_message_id = None \<rparr>"

text \<open>Example messages: a question, a reply of the sales agent, a system notice.\<close>

definition askMsg :: "string \<Rightarrow> Message" where
  "askMsg i = \<lparr> role = User, content = ''question'', timestamp = ''2025-01-01T00:00:00.000Z'',
     agent = None, metadata = None, message_id = Some i \<rparr>"

definition replyMsg :: "string \<Rightarrow> Message" where
  "replyMsg i = \<lparr> role = Assistant, content = ''answer'', timestamp = ''2025-01-01T00:00:01.000Z'',
     agent = Some Sales, metadata = None, message_id = Some i \<rparr>"

definition noticeMsg :: "string option \<Rightarrow> Message" where
  "noticeMsg i = \<lparr> role = Assistant, content = ''Reconnected successfully! '',
     timestamp = ''2025-01-01T00:00:02.000Z'', agent = Some System,
     metadata = Some (no_metadata\<lparr> md_type := Some Reconnection \<rparr>), message_id = i \<rparr>"

definition logFive :: "Message list" where
  "logFive = [askMsg ''m1'', askMsg ''m2'', noticeMsg None, replyMsg ''r1'', replyMsg ''r2'']"

text \<open>
  Replies that echo the ids of the questions, a notice and a second reply with the id of
  the second question, then a third question.
\<close>

definition logEcho :: "Message list" where
  "logEcho = [replyMsg ''m1'', noticeMsg (Some ''m2''), replyMsg ''m2'', replyMsg ''m2'', askMsg ''m3'']"

text \<open>A question without id, keyed by its position, and two replies.\<close>

definition logNotice :: "Message list" where
  "logNotice = [askMsg '''', replyMsg ''r1'', replyMsg ''r2'']"

definition logAlternating :: "Message list" where
  "logAlternating = [replyMsg ''r0'', noticeMsg None, askMsg ''m1'', replyMsg ''r1'',
     askMsg '''', replyMsg ''r2'', askMsg ''m3'', askMsg ''m4'']"

section \<open>Invariants of the hook\<close>

lemmas handler_defs = on_connect_def on_disconnect_def on_reconnect_def on_reconnect_attempt_def
  on_reconnect_error_def on_reconnect_failed_def on_connected_def on_message_queued_def
  on_response_def on_typing_def on_agent_switch_def on_error_def on_message_cancelled_def
  on_all_messages_cancelled_def on_message_duplicate_def sendMessage_def clearMessages_def
  cancelMessage_def cancelAllMessages_def timerFires_def stopTypingIfIdle_def resolveIfId_def

lemma synced_render: "synced (render s)"
  by (simp add: synced_def render_def)

lemma reach_synced: "reach admit s \<Longrightarrow> synced s"
  by (induction rule: reach.induct) (simp_all add: synced_def initialState_def handle_def render_def)

lemma toLowerCase_Nil: "toLowerCase s = [] \<longleftrightarrow> s = []"
  by (simp add: toLowerCase_def)

lemma dispatch_pending_distinct:
  "distinct (map fst (pendingMessages s)) \<Longrightarrow> distinct (map fst (pendingMessages (dispatch c e s)))"
  by (cases e)
     (auto simp: handler_defs Let_def distinct_update distinct_delete distinct_map_entry
           split: option.splits TimerAction.splits)

lemma dispatch_lastSent:
  "lastSentMessage s \<noteq> Some [] \<Longrightarrow> lastSentMessage (dispatch c e s) \<noteq> Some []"
  by (cases e)
     (auto simp: handler_defs Let_def toLowerCase_Nil split: option.splits TimerAction.splits)

lemma reach_distinct: "reach admit s \<Longrightarrow> distinct (map fst (pendingMessages s))"
  by (induction rule: reach.induct)
     (simp_all add: initialState_def handle_def render_def dispatch_pending_distinct)

lemma reach_lastSent: "reach admit s \<Longrightarrow> lastSentMessage s \<noteq> Some []"
  by (induction rule: reach.induct)
     (simp_all add: initialState_def handle_def render_def dispatch_lastSent)

subsection \<open>Evaluation of the example runs\<close>

lemma trim_examples:
  "trim ''first'' = ''first''" "trim ''second'' = ''second''" "trim ''third'' = ''third''"
  by (simp_all add: trim_def isWhiteSpace_def)

lemma lower_examples:
  "toLowerCase ''first'' = ''first''" "toLowerCase ''second'' = ''second''"
  "toLowerCase ''third'' = ''third''"
  by (simp_all add: toLowerCase_def toLowerChar_def)

lemma normalize_example: "toLowerCase (trim ''  SECOND '') = ''second''"
  by (simp add: toLowerCase_def trim_def isWhiteSpace_def toLowerChar_def char_of_eq_iff)

lemma offlineTwo_reach: "reach anyEvent offlineTwo"
  unfolding offlineTwo_def run.simps
  by (intro reach_step reach_init) (simp_all add: anyEvent_def)

lemma offlineTwo_eval:
  "offlineQueue offlineTwo
     = [offlineEntry (clockAt 1000) ''first'', offlineEntry (clockAt 5000) ''second'']"
  "\<not> isConnected offlineTwo" "emitted offlineTwo = []" "\<not> isSending offlineTwo"
  "lastSentMessage offlineTwo = Some ''second''" "lastSentTime offlineTwo = 5000"
  by (simp_all add: offlineTwo_def handle_def render_def sendMessage_def initialState_def Let_def
        trim_examples lower_examples clockAt_def DUPLICATE_SEND_THROTTLE_MS_def)

section \<open>Offline queue\<close>

lemma handle_send_emitted_offline:
  "\<not> (socket s \<and> isConnected s) \<Longrightarrow> emitted (handle c (SendMessage m) s) = emitted s"
  by (auto simp: handle_def render_def sendMessage_def Let_def)

lemma handle_send_queue_offline:
  "\<not> (socket s \<and> isConnected s) \<Longrightarrow> accepted c m s \<Longrightarrow>
   offlineQueue (handle c (SendMessage m) s) = offlineQueue s @ [offlineEntry c m]"
  by (auto simp: handle_def render_def sendMessage_def Let_def accepted_def throttled_def)

lemma handle_connect_flush:
  "synced s \<Longrightarrow> offlineQueue s \<noteq> [] \<Longrightarrow>
   messages (handle c Connect s) = messages s @ [reconnectionNotice c (length (offlineQueue s))]
   \<and> emitted (handle c Connect s) = emitted s @ map emitQueued (offlineQueue s)
   \<and> offlineQueue (handle c Connect s) = []"
  by (simp add: handle_def render_def on_connect_def Let_def synced_def)

lemma handle_connect_twice:
  "synced s \<Longrightarrow> emitted (handle c' Connect (handle c Connect s)) = emitted (handle c Connect s)"
  by (simp add: handle_def render_def on_connect_def Let_def synced_def)

text \<open>
  C4. In every reachable state: a send made while disconnected emits nothing to the
  transport, and when it passes the guards it is appended to the tail of the offline
  queue. When the connect handler runs with a non-empty queue, the log grows by exactly
  one system notice whose text reports the number of queued entries, the transport
  receives every queued entry once, in the order of the queue, and the queue is empty
  afterwards, so that a further connect emits nothing.
\<close>

theorem offline_queue_replay:
  assumes "reach anyEvent s"
  shows "(\<not> (socket s \<and> isConnected s) \<longrightarrow> emitted (handle c (SendMessage m) s) = emitted s)
    \<and> (\<not> (socket s \<and> isConnected s) \<and> accepted c m s \<longrightarrow>
         offlineQueue (handle c (SendMessage m) s) = offlineQueue s @ [offlineEntry c m])
    \<and> (offlineQueue s \<noteq> [] \<longrightarrow>
         messages (handle c Connect s)
           = messages s @ [reconnectionNotice c (length (offlineQueue s))]
         \<and> emitted (handle c Connect s) = emitted s @ map emitQueued (offlineQueue s)
         \<and> offlineQueue (handle c Connect s) = [])
    \<and> emitted (handle c' Connect (handle c Connect s)) = emitted (handle c Connect s)
    \<and> agent (reconnectionNotice c n) = Some System
    \<and> content (reconnectionNotice c n)
         = ''Reconnected! Sending '' @ showNat n @ '' message(s) from offline queue...''"
proof -
  have sy: "synced s" using assms by (rule reach_synced)
  show ?thesis
    using handle_send_emitted_offline [of s c m] handle_send_queue_offline [of s c m]
      handle_connect_flush [OF sy, of c] handle_connect_twice [OF sy, of c' c]
    by (simp add: reconnectionNotice_def systemMessage_def)
qed

theorem offline_queue_replay_witness:
  "reach anyEvent offlineTwo
   \<and> \<not> (socket offlineTwo \<and> isConnected offlineTwo)
   \<and> accepted (clockAt 9000) ''third'' offlineTwo
   \<and> offlineQueue offlineTwo \<noteq> []
   \<and> emitted (handle (clockAt 9000) (SendMessage ''third'') offlineTwo) = []
   \<and> length (offlineQueue (handle (clockAt 9000) (SendMessage ''third'') offlineTwo)) = 3
   \<and> emitted (handle (clockAt 9000) Connect offlineTwo)
        = [EmitMessage ''first'' TextType, EmitMessage ''second'' TextType]
   \<and> offlineQueue (handle (clockAt 9000) Connect offlineTwo) = []"
proof -
  have b: "accepted (clockAt 9000) ''third'' offlineTwo"
    by (simp add: accepted_def throttled_def offlineTwo_eval trim_examples lower_examples)
  show ?thesis
    using offline_queue_replay [OF offlineTwo_reach, of "clockAt 9000" "''third''" "clockAt 9000" 2]
      b offlineTwo_reach
    by (simp add: offlineTwo_eval emitQueued_def offlineEntry_def)
qed

section \<open>Duplicate guard\<close>

lemma throttled_rejects:
  assumes "lastSentMessage s \<noteq> Some []" "throttled c m s"
  shows "dispatch c (SendMessage m) s
         = s\<lparr> error := Some SEND_TOO_FAST, timers := timers s @ [(ERROR_AUTO_CLEAR_MS, ClearError)] \<rparr>"
proof -
  from assms have "toLowerCase (trim m) \<noteq> []" by (auto simp: throttled_def)
  then have "trim m \<noteq> []" by (simp add: toLowerCase_Nil)
  with assms(2) show ?thesis by (simp add: sendMessage_def throttled_def Let_def)
qed

lemma accepted_appends:
  assumes "accepted c m s"
  shows "messages (dispatch c (SendMessage m) s)
         = messages s @ userMessage c m # (if socket s \<and> isConnected s then [] else [offlineMessage c])"
  using assms by (auto simp: sendMessage_def accepted_def throttled_def Let_def)

text \<open>
  C5. In every reachable state whose last sent content equals the normalized (trimmed,
  lower-cased) form of the content: a send within the cooldown window sets the error to
  the "too fast" text and leaves the log, the offline queue, the pending map and the
  transport untouched; a send once the cooldown has elapsed, no other send being in
  flight, appends the user message to the log.
\<close>

theorem duplicate_guard:
  assumes "reach anyEvent s"
    and "lastSentMessage s = Some (toLowerCase (trim m))"
  shows "(clk_now c - lastSentTime s < DUPLICATE_SEND_THROTTLE_MS \<longrightarrow>
            error (handle c (SendMessage m) s) = Some SEND_TOO_FAST
          \<and> messages (handle c (SendMessage m) s) = messages s
          \<and> offlineQueue (handle c (SendMessage m) s) = offlineQueue s
          \<and> pendingMessages (handle c (SendMessage m) s) = pendingMessages s
          \<and> emitted (handle c (SendMessage m) s) = emitted s)
       \<and> (DUPLICATE_SEND_THROTTLE_MS \<le> clk_now c - lastSentTime s \<and> \<not> isSending s \<longrightarrow>
            messages (handle c (SendMessage m) s)
              = messages s @ userMessage c m
                  # (if socket s \<and> isConnected s then [] else [offlineMessage c]))"
proof -
  have ne: "lastSentMessage s \<noteq> Some []" using assms(1) by (rule reach_lastSent)
  with assms(2) have tm: "trim m \<noteq> []" by (auto simp: toLowerCase_Nil)
  have 1: "clk_now c - lastSentTime s < DUPLICATE_SEND_THROTTLE_MS \<Longrightarrow> throttled c m s"
    using assms(2) by (simp add: throttled_def)
  have 2: "DUPLICATE_SEND_THROTTLE_MS \<le> clk_now c - lastSentTime s \<Longrightarrow> \<not> isSending s
           \<Longrightarrow> accepted c m s"
    using tm by (simp add: accepted_def throttled_def)
  show ?thesis
    using throttled_rejects [OF ne 1] accepted_appends [OF 2]
    by (simp add: handle_def render_def)
qed

theorem duplicate_guard_witness:
  "reach anyEvent offlineTwo
   \<and> lastSentMessage offlineTwo = Some (toLowerCase (trim ''  SECOND ''))
   \<and> clk_now (clockAt 6999) - lastSentTime offlineTwo < DUPLICATE_SEND_THROTTLE_MS
   \<and> error (handle (clockAt 6999) (SendMessage ''  SECOND '') offlineTwo) = Some SEND_TOO_FAST
   \<and> messages (handle (clockAt 6999) (SendMessage ''  SECOND '') offlineTwo) = messages offlineTwo
   \<and> DUPLICATE_SEND_THROTTLE_MS \<le> clk_now (clockAt 7000) - lastSentTime offlineTwo
   \<and> \<not> isSending offlineTwo
   \<and> length (messages (handle (clockAt 7000) (SendMessage ''  SECOND '') offlineTwo))
       = length (messages offlineTwo) + 2"
proof -
  have l: "lastSentMessage offlineTwo = Some (toLowerCase (trim ''  SECOND ''))"
    by (simp add: normalize_example offlineTwo_eval)
  show ?thesis
    using duplicate_guard [OF offlineTwo_reach l, of "clockAt 6999"]
      duplicate_guard [OF offlineTwo_reach l, of "clockAt 7000"] offlineTwo_reach l
    by (simp add: offlineTwo_eval clockAt_def DUPLICATE_SEND_THROTTLE_MS_def)
qed

lemma clockAt_sel: "clk_now (clockAt t) = t" "clk_random (clockAt t) = ''k3j9x2m1q''"
  by (simp_all add: clockAt_def)

lemma temp_ids:
  "tempMessageId (clockAt 1000) = ''temp_1000_k3j9x2m1q''"
  "tempMessageId (clockAt 2000) = ''temp_2000_k3j9x2m1q''"
  "tempMessageId (clockAt 4000) = ''temp_4000_k3j9x2m1q''"
  by (simp_all add: tempMessageId_def clockAt_def showInt_def showNat.simps digitChar_def char_of_eq_iff)

lemma connectedTwo_reach: "(\<And>s e. admit s e) \<Longrightarrow> reach admit connectedTwo"
  unfolding connectedTwo_def run.simps
  by (intro reach_step reach_init) 

lemma connectedTwo_eval:
  "pendingMessages connectedTwo
     = [(''temp_2000_k3j9x2m1q'', pendingEntry (clockAt 2000) ''first''),
        (''temp_4000_k3j9x2m1q'', pendingEntry (clockAt 4000) ''second'')]"
  "isConnected connectedTwo" "socket connectedTwo" "isTyping connectedTwo" "isSending connectedTwo"
  "error connectedTwo = None"
  "emitted connectedTwo = [EmitMessage ''first'' TextType, EmitMessage ''second'' TextType]"
  "length (messages connectedTwo) = 2"
  "lastSentMessage connectedTwo = Some ''second''" "lastSentTime connectedTwo = 4000"
  by (simp_all add: connectedTwo_def handle_def render_def sendMessage_def on_connect_def
        timerFires_def initialState_def Let_def trim_examples lower_examples temp_ids
        DUPLICATE_SEND_THROTTLE_MS_def clockAt_sel)

section \<open>Rejected operations\<close>

text \<open>
  C6, as stated, fails: with a send in flight a second send returns the state as it was,
  error still unset, and so do both cancel operations while the hook is not connected.
\<close>

theorem silent_rejections_counterexample:
  "isSending connectedTwo
   \<and> trim ''third'' \<noteq> [] \<and> \<not> throttled (clockAt 4500) ''third'' connectedTwo
   \<and> sendMessage (clockAt 4500) ''third'' connectedTwo = connectedTwo
   \<and> error (sendMessage (clockAt 4500) ''third'' connectedTwo) = None
   \<and> \<not> isConnected initialState
   \<and> error (cancelMessage ''temp_2000_k3j9x2m1q'' initialState) = None
   \<and> error (cancelAllMessages initialState) = None"
  by (simp add: connectedTwo_eval throttled_def trim_examples lower_examples sendMessage_def
        cancelMessage_def cancelAllMessages_def initialState_def)

text \<open>
  C6, amended. Of the rejected operations only the duplicate throttle sets the error, to
  the "too fast" text. A send rejected because another send is in flight, and a
  cancelMessage or cancelAllMessages while not connected, return the state unchanged:
  they write to the console and leave the error as it was.
\<close>

theorem rejection_signals:
  "(trim m \<noteq> [] \<and> throttled c m s \<longrightarrow> error (sendMessage c m s) = Some SEND_TOO_FAST)
   \<and> (trim m \<noteq> [] \<and> \<not> throttled c m s \<and> isSending s \<longrightarrow> sendMessage c m s = s)
   \<and> (\<not> (socket s \<and> isConnected s) \<longrightarrow> cancelMessage i s = s \<and> cancelAllMessages s = s)"
  by (auto simp: sendMessage_def throttled_def cancelMessage_def cancelAllMessages_def Let_def)

theorem rejection_signals_witness:
  "trim ''second'' \<noteq> [] \<and> throttled (clockAt 4500) ''second'' connectedTwo
   \<and> error (sendMessage (clockAt 4500) ''second'' connectedTwo) = Some SEND_TOO_FAST
   \<and> trim ''third'' \<noteq> [] \<and> \<not> throttled (clockAt 4500) ''third'' connectedTwo
   \<and> isSending connectedTwo
   \<and> sendMessage (clockAt 4500) ''third'' connectedTwo = connectedTwo
   \<and> \<not> (socket initialState \<and> isConnected initialState)
   \<and> cancelMessage ''temp_2000_k3j9x2m1q'' initialState = initialState
   \<and> cancelAllMessages initialState = initialState"
proof -
  have a: "throttled (clockAt 4500) ''second'' connectedTwo"
    by (simp add: throttled_def connectedTwo_eval trim_examples lower_examples clockAt_def
          DUPLICATE_SEND_THROTTLE_MS_def)
  have b: "\<not> throttled (clockAt 4500) ''third'' connectedTwo"
    by (simp add: throttled_def connectedTwo_eval trim_examples lower_examples)
  have c: "\<not> isConnected initialState" by (simp add: initialState_def)
  show ?thesis
    using rejection_signals [of "''second''" "clockAt 4500" connectedTwo]
      rejection_signals [of "''third''" "clockAt 4500" connectedTwo]
      rejection_signals [of "''third''" "clockAt 4500" initialState "''temp_2000_k3j9x2m1q''"]
      a b c
    by (simp add: trim_examples connectedTwo_eval)
qed

section \<open>Pending entries\<close>

text \<open>
  C7, as stated, fails: a send accepted while disconnected puts the user message into
  the log and leaves the pending map without an entry for its id.
\<close>

theorem pending_entry_offline_counterexample:
  "accepted (clockAt 1000) ''first'' initialState
   \<and> messages (sendMessage (clockAt 1000) ''first'' initialState)
       = [userMessage (clockAt 1000) ''first'', offlineMessage (clockAt 1000)]
   \<and> message_id (userMessage (clockAt 1000) ''first'') = Some (tempMessageId (clockAt 1000))
   \<and> map_of (pendingMessages (sendMessage (clockAt 1000) ''first'' initialState))
        (tempMessageId (clockAt 1000)) = None"
  by (simp add: accepted_def throttled_def sendMessage_def initialState_def trim_examples
        lower_examples userMessage_def Let_def)

text \<open>
  C7, amended. A send that passes the guards while connected stores a pending entry
  under the id of the new user message. A send that passes the guards while disconnected
  leaves the pending map unchanged and appends an offline queue entry carrying that id.
\<close>

theorem pending_entry_created:
  assumes "accepted c m s"
  shows "(socket s \<and> isConnected s \<longrightarrow>
            map_of (pendingMessages (sendMessage c m s)) (tempMessageId c) = Some (pendingEntry c m)
          \<and> messages (sendMessage c m s) = messages s @ [userMessage c m])
       \<and> (\<not> (socket s \<and> isConnected s) \<longrightarrow>
            pendingMessages (sendMessage c m s) = pendingMessages s
          \<and> offlineQueue (sendMessage c m s) = offlineQueue s @ [offlineEntry c m]
          \<and> messages (sendMessage c m s) = messages s @ [userMessage c m, offlineMessage c])
       \<and> message_id (userMessage c m) = Some (tempMessageId c)
       \<and> oq_message_id (offlineEntry c m) = tempMessageId c"
  using assms
  by (auto simp: sendMessage_def accepted_def throttled_def Let_def update_conv'
        userMessage_def offlineEntry_def)

theorem pending_entry_created_witness:
  "accepted (clockAt 2000) ''first'' (handle (clockAt 1000) Connect initialState)
   \<and> socket (handle (clockAt 1000) Connect initialState)
   \<and> isConnected (handle (clockAt 1000) Connect initialState)
   \<and> map_of (pendingMessages
         (sendMessage (clockAt 2000) ''first'' (handle (clockAt 1000) Connect initialState)))
        (tempMessageId (clockAt 2000)) = Some (pendingEntry (clockAt 2000) ''first'')
   \<and> accepted (clockAt 1000) ''first'' initialState
   \<and> \<not> (socket initialState \<and> isConnected initialState)
   \<and> pendingMessages (sendMessage (clockAt 1000) ''first'' initialState) = []
   \<and> map oq_message_id (offlineQueue (sendMessage (clockAt 1000) ''first'' initialState))
        = [tempMessageId (clockAt 1000)]"
proof -
  have a: "accepted (clockAt 2000) ''first'' (handle (clockAt 1000) Connect initialState)"
    "socket (handle (clockAt 1000) Connect initialState)"
    "isConnected (handle (clockAt 1000) Connect initialState)"
    by (simp_all add: accepted_def throttled_def handle_def render_def on_connect_def
          initialState_def trim_examples)
  have b: "accepted (clockAt 1000) ''first'' initialState"
    "\<not> (socket initialState \<and> isConnected initialState)"
    "pendingMessages initialState = []" "offlineQueue initialState = []"
    by (simp_all add: accepted_def throttled_def initialState_def trim_examples)
  show ?thesis
    using pending_entry_created [OF a(1)] pending_entry_created [OF b(1)] a b
    by simp
qed

section \<open>Bulk cancellation\<close>

text \<open>
  C9. In every state, whatever the number of pending entries, the confirmation of a bulk
  cancellation empties the pending map, clears the typing flag and appends exactly one
  message to the log, nothing else in the log changing: a system notice whose metadata
  carries the cancelled count of the event and whose text, unless the peer sent its own,
  is "Cancelled K pending message(s)".
\<close>

theorem cancel_all_confirmation:
  "pendingMessages (handle c (AllMessagesCancelled d) s) = []
   \<and> \<not> isTyping (handle c (AllMessagesCancelled d) s)
   \<and> messages (handle c (AllMessagesCancelled d) s) = messages s @ [cancellationNotice c d]
   \<and> role (cancellationNotice c d) = Assistant
   \<and> agent (cancellationNotice c d) = Some System
   \<and> map_option md_type (metadata (cancellationNotice c d)) = Some (Some Cancellation)
   \<and> map_option md_cancelled_count (metadata (cancellationNotice c d))
        = Some (Some (ac_cancelled_count d))
   \<and> (\<not> truthyStr (ac_message d) \<longrightarrow>
        content (cancellationNotice c d)
          = ''Cancelled '' @ showNat (ac_cancelled_count d) @ '' pending message(s)'')"
  by (simp add: handle_def render_def on_all_messages_cancelled_def cancellationNotice_def
        systemMessage_def)

theorem cancel_all_confirmation_witness:
  "length (pendingMessages connectedTwo) = ac_cancelled_count cancelTwo
   \<and> \<not> truthyStr (ac_message cancelTwo)
   \<and> pendingMessages (handle (clockAt 6000) (AllMessagesCancelled cancelTwo) connectedTwo) = []
   \<and> \<not> isTyping (handle (clockAt 6000) (AllMessagesCancelled cancelTwo) connectedTwo)
   \<and> length (messages (handle (clockAt 6000) (AllMessagesCancelled cancelTwo) connectedTwo)) = 3
   \<and> content (last (messages (handle (clockAt 6000) (AllMessagesCancelled cancelTwo) connectedTwo)))
        = ''Cancelled 2 pending message(s)''"
proof -
  have n: "showNat 2 = ''2''" by (simp add: showNat.simps digitChar_def char_of_eq_iff)
  show ?thesis
    using cancel_all_confirmation [of "clockAt 6000" cancelTwo connectedTwo]
    by (simp add: connectedTwo_eval cancelTwo_def truthyStr_def n)
qed

section \<open>Typing indicator\<close>

lemma delete_Nil_length:
  assumes "distinct (map fst al)" "AList.delete k al = []"
  shows "length al \<le> 1"
proof (cases al)
  case Nil
  then show ?thesis by simp
next
  case (Cons p ps)
  with assms(2) have k: "fst p = k" and d: "AList.delete k ps = []"
    by (simp_all split: if_splits)
  from assms(1) Cons k have "k \<notin> fst ` set ps" by auto
  then have "AList.delete k ps = ps" by simp
  with d Cons show ?thesis by simp
qed

lemma map_entry_Nil: "AList.map_entry k f al = [] \<longleftrightarrow> al = []"
  by (cases al) simp_all

lemma reachable_distinct: "reachable admit s \<Longrightarrow> distinct (map fst (pendingMessages s))"
  by (induction rule: reachable.induct)
     (simp_all add: initialState_def render_def dispatch_pending_distinct)

lemma reach_reachable:
  assumes "reach quietTyping s"
  shows "reachable quietCurrent s"
  using assms
proof (induction rule: reach.induct)
  case reach_init
  show ?case by (rule reachable_init)
next
  case (reach_step s e c)
  from reach_step(1) have "synced s" by (rule reach_synced)
  then have "refWithinPending s" by (simp add: synced_def refWithinPending_def)
  with reach_step(2) have "quietCurrent s e" by (simp add: quietCurrent_def)
  with reach_step(3) have "reachable quietCurrent (dispatch c e s)" by (rule reachable_event)
  then show ?case unfolding handle_def by (rule reachable_render)
qed

lemma cancelled_idle:
  assumes "distinct (map fst (pendingMessages s))" "refWithinPending s"
  shows "pendingMessages (on_message_cancelled d s) = [] \<longrightarrow> \<not> isTyping (on_message_cancelled d s)"
proof
  assume e: "pendingMessages (on_message_cancelled d s) = []"
  then have "AList.delete (mc_message_id d) (pendingMessages s) = []"
    by (simp add: on_message_cancelled_def Let_def split: if_splits)
  with assms(1) have "length (pendingMessages s) \<le> 1" by (rule delete_Nil_length)
  with assms(2) have "length (pendingMessagesRef s) \<le> 1" by (simp add: refWithinPending_def)
  then show "\<not> isTyping (on_message_cancelled d s)"
    by (simp add: on_message_cancelled_def Let_def)
qed

lemma typing_idle:
  assumes "ty_is_typing d \<longrightarrow> pendingMessages s \<noteq> []" "refWithinPending s"
  shows "pendingMessages (on_typing d s) = [] \<longrightarrow> \<not> isTyping (on_typing d s)"
proof
  assume "pendingMessages (on_typing d s) = []"
  then have "pendingMessages s = []"
    by (simp add: on_typing_def Let_def map_entry_Nil split: if_splits)
  with assms show "\<not> isTyping (on_typing d s)"
    by (simp add: on_typing_def Let_def refWithinPending_def)
qed

lemma dispatch_idle_current:
  assumes "distinct (map fst (pendingMessages s))"
    and "pendingMessages s = [] \<longrightarrow> \<not> isTyping s"
    and "quietCurrent s e"
  shows "pendingMessages (dispatch c e s) = [] \<longrightarrow> \<not> isTyping (dispatch c e s)"
proof (cases e)
  case (MessageCancelled d)
  with assms(1,3) show ?thesis by (simp add: quietCurrent_def cancelled_idle)
next
  case (Typing d)
  with assms(3) show ?thesis by (simp add: quietCurrent_def typing_idle)
next
  case (SendMessage m)
  with assms show ?thesis
    by (auto simp: sendMessage_def Let_def)
qed (use assms in \<open>auto simp: quietCurrent_def handler_defs Let_def map_entry_Nil split: option.splits TimerAction.splits\<close>)

lemma reachable_idle:
  "reachable quietCurrent s \<Longrightarrow> pendingMessages s = [] \<longrightarrow> \<not> isTyping s"
proof (induction rule: reachable.induct)
  case reachable_init
  show ?case by (simp add: initialState_def)
next
  case (reachable_event s e c)
  from reachable_distinct [OF reachable_event(1)] reachable_event(3) reachable_event(2)
  show ?case by (rule dispatch_idle_current)
next
  case (reachable_render s)
  then show ?case by (simp add: render_def)
next
  case (reachable_closure s so co se)
  then show ?case by simp
qed

lemma resolving_idle:
  assumes "resolves e" "\<not> readsPendingRef e"
  shows "pendingMessages (dispatch c e s) = [] \<longrightarrow> \<not> isTyping (dispatch c e s)"
  using assms
  by (cases e) (auto simp: on_response_def on_error_def on_all_messages_cancelled_def
       stopTypingIfIdle_def resolveIfId_def Let_def split: option.splits)

text \<open>
  C8, as stated, fails: a typing signal with \<open>is_typing = true\<close> received while nothing
  is pending sets the typing flag.
\<close>

theorem idle_means_not_typing_counterexample:
  "reach anyEvent (handle (clockAt 1000) (Typing typingOnly) initialState)
   \<and> pendingMessages (handle (clockAt 1000) (Typing typingOnly) initialState) = []
   \<and> isTyping (handle (clockAt 1000) (Typing typingOnly) initialState)"
proof -
  have "reach anyEvent (handle (clockAt 1000) (Typing typingOnly) initialState)"
    by (intro reach_step reach_init) (simp add: anyEvent_def)
  then show ?thesis
    by (simp add: handle_def render_def on_typing_def typingOnly_def initialState_def truthyStr_def)
qed

text \<open>
  C8, amended. Handlers run back to back, the effects that copy the state into the refs
  running after any number of them. In every state so reached, \<open>clearMessages\<close> apart,
  in which no typing signal with \<open>is_typing = true\<close> arrived while the pending map was
  empty, and every typing signal and every single cancellation was handled while
  \<open>pendingMessagesRef\<close> held no more entries than the pending map, an empty pending map
  means the typing flag is false. A reply, an error or a bulk cancellation that leaves the
  pending map empty leaves the typing flag false, in every state; a single cancellation
  does so in every reachable state in which \<open>pendingMessagesRef\<close> holds no more entries
  than the pending map.
\<close>

theorem idle_means_not_typing:
  "(reachable quietCurrent s \<longrightarrow> pendingMessages s = [] \<longrightarrow> \<not> isTyping s)
   \<and> (resolves e \<and> (readsPendingRef e \<longrightarrow> reachable anyEvent s \<and> refWithinPending s) \<longrightarrow>
        pendingMessages (dispatch c e s) = [] \<longrightarrow> \<not> isTyping (dispatch c e s))"
proof -
  have "pendingMessages (dispatch c e s) = [] \<longrightarrow> \<not> isTyping (dispatch c e s)"
    if r: "resolves e" and h: "readsPendingRef e \<longrightarrow> reachable anyEvent s \<and> refWithinPending s"
  proof (cases "readsPendingRef e")
    case False
    with r show ?thesis by (rule resolving_idle)
  next
    case True
    with r obtain d where e: "e = MessageCancelled d" by (cases e) simp_all
    from True h have rs: "reachable anyEvent s" and w: "refWithinPending s" by simp_all
    from reachable_distinct [OF rs] w show ?thesis unfolding e dispatch.simps by (rule cancelled_idle)
  qed
  then show ?thesis using reachable_idle [of s] by blast
qed

lemma sentOne_eval:
  "pendingMessages sentOne = [(''temp_2000_k3j9x2m1q'', pendingEntry (clockAt 2000) ''first'')]"
  "pendingMessagesRef sentOne = []"
  "isTyping sentOne"
  by (simp_all add: sentOne_def handle_def render_def sendMessage_def on_connect_def
        initialState_def Let_def trim_examples lower_examples temp_ids
        DUPLICATE_SEND_THROTTLE_MS_def clockAt_sel)

lemma sentOne_reachable: "reachable quietCurrent sentOne" "reachable anyEvent sentOne"
  unfolding sentOne_def handle_def
  by (intro reachable_event reachable_render reachable_init; simp add: anyEvent_def quietCurrent_def)+

theorem idle_means_not_typing_witness:
  "reachable quietCurrent (dispatch (clockAt 3000) (Response replyFirst) sentOne)
   \<and> pendingMessagesRef sentOne \<noteq> pendingMessages sentOne
   \<and> isTyping sentOne
   \<and> pendingMessages (dispatch (clockAt 3000) (Response replyFirst) sentOne) = []
   \<and> \<not> isTyping (dispatch (clockAt 3000) (Response replyFirst) sentOne)
   \<and> resolves (MessageCancelled cancelFirst) \<and> readsPendingRef (MessageCancelled cancelFirst)
   \<and> reachable anyEvent (render sentOne) \<and> refWithinPending (render sentOne)
   \<and> pendingMessages (dispatch (clockAt 3000) (MessageCancelled cancelFirst) (render sentOne)) = []
   \<and> \<not> isTyping (dispatch (clockAt 3000) (MessageCancelled cancelFirst) (render sentOne))"
proof -
  have r: "reachable quietCurrent (dispatch (clockAt 3000) (Response replyFirst) sentOne)"
    by (intro reachable_event sentOne_reachable) (simp add: quietCurrent_def)
  have p: "pendingMessages (dispatch (clockAt 3000) (Response replyFirst) sentOne) = []"
    by (simp add: on_response_def resolveIfId_def stopTypingIfIdle_def
          replyFirst_def sentOne_eval Let_def)
  have a: "reachable anyEvent (render sentOne)" "refWithinPending (render sentOne)"
    by (intro reachable_render sentOne_reachable) (simp add: refWithinPending_def render_def)
  have q: "pendingMessages (dispatch (clockAt 3000) (MessageCancelled cancelFirst) (render sentOne)) = []"
    by (simp add: on_message_cancelled_def render_def sentOne_eval cancelFirst_def Let_def)
  show ?thesis
    using idle_means_not_typing [of "dispatch (clockAt 3000) (Response replyFirst) sentOne"
        "Response replyFirst" "clockAt 3000"]
      idle_means_not_typing [of "render sentOne" "MessageCancelled cancelFirst" "clockAt 3000"]
      r p a q sentOne_eval
    by simp
qed

text \<open>
  Runs outside the admitted events: a cancellation, or a typing signal that ends, handled
  while \<open>pendingMessagesRef\<close> still holds an entry that has been resolved since the last
  render.
\<close>

lemma stale_ref_keeps_typing:
  "reachable anyEvent (dispatch (clockAt 3000) (MessageCancelled cancelFirst) (render sentOne))
   \<and> pendingMessages (dispatch (clockAt 3000) (MessageCancelled cancelFirst) (render sentOne)) = []
   \<and> \<not> isTyping (dispatch (clockAt 3000) (MessageCancelled cancelFirst) (render sentOne))
   \<and> \<not> refWithinPending (dispatch (clockAt 3000) (MessageCancelled cancelFirst) (render sentOne))
   \<and> pendingMessages (dispatch (clockAt 3001) (Typing typingOff)
        (dispatch (clockAt 3000) (MessageCancelled cancelFirst) (render sentOne))) = []
   \<and> isTyping (dispatch (clockAt 3001) (Typing typingOff)
        (dispatch (clockAt 3000) (MessageCancelled cancelFirst) (render sentOne)))"
proof -
  have "reachable anyEvent (dispatch (clockAt 3000) (MessageCancelled cancelFirst) (render sentOne))"
    by (intro reachable_event reachable_render sentOne_reachable) (simp add: anyEvent_def)
  then show ?thesis
    by (simp add: on_typing_def on_message_cancelled_def render_def sentOne_eval cancelFirst_def
          typingOff_def refWithinPending_def truthyStr_def Let_def)
qed

lemma stale_ref_two_cancellations:
  "reachable anyEvent connectedTwo
   \<and> pendingMessagesRef connectedTwo = pendingMessages connectedTwo
   \<and> length (pendingMessages connectedTwo) = 2
   \<and> pendingMessages (dispatch (clockAt 5001) (MessageCancelled cancelSecond)
        (dispatch (clockAt 5000) (MessageCancelled cancelFirst) connectedTwo)) = []
   \<and> isTyping (dispatch (clockAt 5001) (MessageCancelled cancelSecond)
        (dispatch (clockAt 5000) (MessageCancelled cancelFirst) connectedTwo))"
proof -
  have r: "reachable anyEvent connectedTwo"
    unfolding connectedTwo_def run.simps handle_def
    by (intro reachable_render reachable_event reachable_init; simp add: anyEvent_def)+
  have "synced connectedTwo" by (rule reach_synced [OF connectedTwo_reach [of anyEvent]]) (simp add: anyEvent_def)
  then have s: "pendingMessagesRef connectedTwo = pendingMessages connectedTwo"
    by (simp add: synced_def)
  show ?thesis
    using r s by (simp add: on_message_cancelled_def connectedTwo_eval cancelFirst_def
        cancelSecond_def Let_def)
qed

section \<open>Keys and ids of a log\<close>

lemma forEachFrom_Nil [simp]: "forEachFrom i [] f s = s"
  by (simp add: forEachFrom_def)

lemma forEachFrom_Cons [simp]: "forEachFrom i (x # xs) f s = forEachFrom (Suc i) xs f (f s x i)"
  by (simp add: forEachFrom_def)

lemma keysFrom_Nil [simp]: "keysFrom i P [] = []"
  by (simp add: keysFrom_def)

lemma keysFrom_Cons [simp]:
  "keysFrom i P (m # ms) = (if P m then messageKey m i # keysFrom (Suc i) P ms else keysFrom (Suc i) P ms)"
  by (simp add: keysFrom_def)

lemma keysFrom_append:
  "keysFrom i P (xs @ ys) = keysFrom i P xs @ keysFrom (i + length xs) P ys"
  by (induction xs arbitrary: i) simp_all

lemma length_keysFrom: "length (keysFrom i P ms) = length (filter P ms)"
  by (induction ms arbitrary: i) simp_all

lemma idsOf_Nil [simp]: "idsOf P [] = []"
  by (simp add: idsOf_def)

lemma idsOf_Cons [simp]:
  "idsOf P (m # ms) = (if P m \<and> truthyStr (message_id m) then the (message_id m) # idsOf P ms else idsOf P ms)"
  by (simp add: idsOf_def)

lemma idsOf_append: "idsOf P (xs @ ys) = idsOf P xs @ idsOf P ys"
  by (simp add: idsOf_def)

lemma messageKey_cases:
  "(truthyStr (message_id m) \<and> messageKey m i = KStr (the (message_id m)))
   \<or> (\<not> truthyStr (message_id m) \<and> messageKey m i = KNum i)"
  by (auto simp: messageKey_def truthyStr_def split: option.splits)

lemma KNum_in_keysFrom: "KNum j \<in> set (keysFrom i P ms) \<Longrightarrow> i \<le> j \<and> j < i + length ms \<and> P (ms ! (j - i)) \<and> \<not> truthyStr (message_id (ms ! (j - i)))"
proof (induction ms arbitrary: i)
  case Nil
  then show ?case by simp
next
  case (Cons m ms)
  show ?case
  proof (cases "P m \<and> KNum j = messageKey m i")
    case True
    then have "j = i" "\<not> truthyStr (message_id m)" using messageKey_cases [of m i] by auto
    with True show ?thesis by simp
  next
    case False
    with Cons.prems have "KNum j \<in> set (keysFrom (Suc i) P ms)" by (auto split: if_splits)
    from Cons.IH [OF this] show ?thesis by (auto simp: Suc_diff_le)
  qed
qed

lemma KStr_in_keysFrom: "KStr s \<in> set (keysFrom i P ms) \<longleftrightarrow> s \<in> set (idsOf P ms)"
proof (induction ms arbitrary: i)
  case Nil
  then show ?case by simp
next
  case (Cons m ms)
  then show ?case using messageKey_cases [of m i] by auto
qed

lemma distinct_keysFrom: "distinct (idsOf P ms) \<Longrightarrow> distinct (keysFrom i P ms)"
proof (induction ms arbitrary: i)
  case Nil
  then show ?case by simp
next
  case (Cons m ms)
  have "messageKey m i \<notin> set (keysFrom (Suc i) P ms)" if "P m"
  proof (cases "truthyStr (message_id m)")
    case True
    then have "messageKey m i = KStr (the (message_id m))" using messageKey_cases [of m i] by auto
    with Cons.prems True that show ?thesis by (simp add: KStr_in_keysFrom)
  next
    case False
    then have "messageKey m i = KNum i" using messageKey_cases [of m i] by auto
    then show ?thesis using KNum_in_keysFrom [of i "Suc i" P ms] by auto
  qed
  with Cons show ?case by (auto split: if_splits)
qed

lemma keysFrom_disjoint:
  assumes "set (idsOf P ms) \<inter> set (idsOf Q ms) = {}" "\<And>m. \<not> (P m \<and> Q m)"
  shows "set (keysFrom i P ms) \<inter> set (keysFrom i Q ms) = {}"
proof -
  have "k \<notin> set (keysFrom i Q ms)" if "k \<in> set (keysFrom i P ms)" for k
  proof (cases k)
    case (KStr s)
    with that assms(1) show ?thesis by (auto simp: KStr_in_keysFrom)
  next
    case (KNum j)
    with that have "P (ms ! (j - i))" using KNum_in_keysFrom by blast
    then have "\<not> Q (ms ! (j - i))" using assms(2) by blast
    then show ?thesis using KNum KNum_in_keysFrom by blast
  qed
  then show ?thesis by blast
qed

section \<open>Numbering pass\<close>

lemma numberStep_user:
  "isUser m \<Longrightarrow> numberStep (c, cm) m i = (Suc c, cm(messageKey m i \<mapsto> userRecord (Suc c)))"
  by (simp add: numberStep_def isUser_def)

lemma numberStep_other: "\<not> isUser m \<Longrightarrow> numberStep (c, cm) m i = (c, cm)"
  by (simp add: numberStep_def isUser_def)

lemma matchStep_user:
  "isUser m \<Longrightarrow> cm (messageKey m i) = Some d \<Longrightarrow>
   matchStep (q, cm) m i = (q @ [(messageKey m i, correlationNumber d)], cm)"
  by (simp add: matchStep_def isUser_def)

lemma matchStep_reply_Nil: "isReply m \<Longrightarrow> matchStep ([], cm) m i = ([], cm)"
  by (simp add: matchStep_def isReply_def)

lemma matchStep_reply_Cons:
  "isReply m \<Longrightarrow> matchStep (e # q, cm) m i = (q, cm(messageKey m i \<mapsto> replyRecord e))"
  by (simp add: matchStep_def isReply_def)

lemma matchStep_other: "\<not> isUser m \<Longrightarrow> \<not> isReply m \<Longrightarrow> matchStep (q, cm) m i = (q, cm)"
  by (auto simp: matchStep_def isReply_def isUser_def)

lemma matchStep_user_None:
  "isUser m \<Longrightarrow> cm (messageKey m i) = None \<Longrightarrow> matchStep (q, cm) m i = (q, cm)"
  by (simp add: matchStep_def isUser_def)

lemma user_not_reply: "isUser m \<Longrightarrow> \<not> isReply m"
  by (simp add: isUser_def isReply_def)

lemma pendingStep_new:
  "cm (KStr i) = None \<Longrightarrow>
   pendingStep (n, cm) (i, p) = (Suc n, cm(KStr i \<mapsto> pendingRecord (Suc n) p))"
  by (simp add: pendingStep_def)

lemma pendingStep_old: "cm (KStr i) \<noteq> None \<Longrightarrow> pendingStep (n, cm) (i, p) = (n, cm)"
  by (simp add: pendingStep_def)

lemma number_fst:
  "fst (forEachFrom i ms numberStep (c, cm)) = c + length (keysFrom i isUser ms)"
proof (induction ms arbitrary: i c cm)
  case Nil
  then show ?case by simp
next
  case (Cons m ms)
  then show ?case by (cases "isUser m") (simp_all add: numberStep_user numberStep_other)
qed

lemma number_frame:
  "k \<notin> set (keysFrom i isUser ms) \<Longrightarrow> snd (forEachFrom i ms numberStep (c, cm)) k = cm k"
proof (induction ms arbitrary: i c cm)
  case Nil
  then show ?case by simp
next
  case (Cons m ms)
  then show ?case by (cases "isUser m") (simp_all add: numberStep_user numberStep_other)
qed

lemma number_dom:
  "k \<in> set (keysFrom i isUser ms) \<Longrightarrow> snd (forEachFrom i ms numberStep (c, cm)) k \<noteq> None"
proof (induction ms arbitrary: i c cm)
  case Nil
  then show ?case by simp
next
  case (Cons m ms)
  show ?case
  proof (cases "k \<in> set (keysFrom (Suc i) isUser ms)")
    case True
    then show ?thesis using Cons.IH
      by (cases "isUser m") (simp_all add: numberStep_user numberStep_other)
  next
    case False
    with Cons.prems have "isUser m" "k = messageKey m i" by (auto split: if_splits)
    with False show ?thesis by (simp add: numberStep_user number_frame)
  qed
qed

lemma number_nth:
  "distinct (keysFrom i isUser ms) \<Longrightarrow> t < length (keysFrom i isUser ms) \<Longrightarrow>
   snd (forEachFrom i ms numberStep (c, cm)) (keysFrom i isUser ms ! t) = Some (userRecord (c + t + 1))"
proof (induction ms arbitrary: i c cm t)
  case Nil
  then show ?case by simp
next
  case (Cons m ms)
  show ?case
  proof (cases "isUser m")
    case False
    with Cons show ?thesis by (simp add: numberStep_other)
  next
    case True
    with Cons.prems have d: "distinct (keysFrom (Suc i) isUser ms)"
      and n: "messageKey m i \<notin> set (keysFrom (Suc i) isUser ms)" by simp_all
    show ?thesis
    proof (cases t)
      case 0
      with True n show ?thesis by (simp add: numberStep_user number_frame)
    next
      case (Suc t')
      with True Cons.prems have "t' < length (keysFrom (Suc i) isUser ms)" by simp
      from Cons.IH [OF d this] True Suc show ?thesis by (simp add: numberStep_user)
    qed
  qed
qed

section \<open>Pending pass\<close>

lemma pending_keep:
  "cm k \<noteq> None \<Longrightarrow> snd (foldl pendingStep (n, cm) pend) k = cm k"
proof (induction pend arbitrary: n cm)
  case Nil
  then show ?case by simp
next
  case (Cons e pend)
  obtain i p where e: "e = (i, p)" by (cases e)
  show ?case
  proof (cases "cm (KStr i) = None")
    case True
    with Cons.prems have ne: "k \<noteq> KStr i" by auto
    have "snd (foldl pendingStep (Suc n, cm(KStr i \<mapsto> pendingRecord (Suc n) p)) pend) k
          = (cm(KStr i \<mapsto> pendingRecord (Suc n) p)) k"
      using Cons.prems ne by (intro Cons.IH) simp
    then show ?thesis using ne True e by (simp add: pendingStep_new)
  next
    case False
    with Cons e show ?thesis by (simp add: pendingStep_old)
  qed
qed

lemma pending_new:
  "cm k = None \<Longrightarrow> snd (foldl pendingStep (n, cm) pend) k = None
     \<or> (\<exists>n' p. snd (foldl pendingStep (n, cm) pend) k = Some (pendingRecord n' p))"
proof (induction pend arbitrary: n cm)
  case Nil
  then show ?case by simp
next
  case (Cons e pend)
  obtain i p where e: "e = (i, p)" by (cases e)
  show ?case
  proof (cases "cm (KStr i) = None \<and> k = KStr i")
    case True
    then have "snd (foldl pendingStep (pendingStep (n, cm) e) pend) k = Some (pendingRecord (Suc n) p)"
      using pending_keep [of "cm(KStr i \<mapsto> pendingRecord (Suc n) p)" k "Suc n" pend]
      by (simp add: pendingStep_new e)
    then show ?thesis by auto
  next
    case False
    show ?thesis
    proof (cases "cm (KStr i) = None")
      case True
      with False have "k \<noteq> KStr i" by simp
      with Cons.prems have "(cm(KStr i \<mapsto> pendingRecord (Suc n) p)) k = None" by simp
      then have "snd (foldl pendingStep (Suc n, cm(KStr i \<mapsto> pendingRecord (Suc n) p)) pend) k = None
        \<or> (\<exists>n' p'. snd (foldl pendingStep (Suc n, cm(KStr i \<mapsto> pendingRecord (Suc n) p)) pend) k
               = Some (pendingRecord n' p'))"
        by (rule Cons.IH)
      then show ?thesis using True e by (simp add: pendingStep_new)
    next
      case F: False
      with Cons.IH [of cm n, OF Cons.prems] e show ?thesis by (simp add: pendingStep_old)
    qed
  qed
qed

lemma linkOf_pending:
  "linkOf (snd (foldl pendingStep (n, cm) pend)) k = linkOf cm k"
proof (cases "cm k")
  case None
  with pending_new [of cm k n pend] show ?thesis
    by (auto simp: linkOf_def pendingRecord_def)
next
  case (Some d)
  then show ?thesis by (simp add: linkOf_def pending_keep)
qed

section \<open>Matching pass\<close>

lemma match_frame:
  "k \<notin> set (keysFrom i isReply ms) \<Longrightarrow> snd (forEachFrom i ms matchStep (q, cm)) k = cm k"
proof (induction ms arbitrary: i q cm)
  case Nil
  then show ?case by simp
next
  case (Cons m ms)
  show ?case
  proof (cases "isUser m")
    case True
    with Cons show ?thesis
      by (cases "cm (messageKey m i)")
         (simp_all add: matchStep_user matchStep_user_None user_not_reply)
  next
    case False
    with Cons show ?thesis
      by (cases "isReply m"; cases q)
         (simp_all add: matchStep_other matchStep_reply_Nil matchStep_reply_Cons)
  qed
qed

lemma slots_length: "length (slots u b ms) = length (keysFrom i isReply ms)"
  by (induction ms arbitrary: i u b) (simp_all add: user_not_reply)

text \<open>
  The links the matching pass leaves: the queue holds the user keys from position b on.
\<close>

lemma match_links:
  assumes "distinct (keysFrom i isReply ms)"
    and "\<forall>k \<in> set (keysFrom i isUser ms). cm k \<noteq> None"
    and "length ans = b" and "u = b + length q"
  shows "map (linkOf (snd (forEachFrom i ms matchStep (q, cm)))) (keysFrom i isReply ms)
       = map (\<lambda>(k, sl). case sl of None \<Rightarrow> linkOf cm k
                | Some j \<Rightarrow> Some ((ans @ map fst q @ keysFrom i isUser ms) ! j))
           (zip (keysFrom i isReply ms) (slots u b ms))"
  using assms
proof (induction ms arbitrary: i q cm ans b u)
  case Nil
  then show ?case by simp
next
  case (Cons m ms)
  show ?case
  proof (cases "isUser m")
    case True
    then have nr: "\<not> isReply m" by (simp add: isUser_def isReply_def)
    from True Cons.prems(2) obtain d where d: "cm (messageKey m i) = Some d" by auto
    let ?q = "q @ [(messageKey m i, correlationNumber d)]"
    have step: "matchStep (q, cm) m i = (?q, cm)"
      using True d by (simp add: matchStep_user)
    have "map (linkOf (snd (forEachFrom (Suc i) ms matchStep (?q, cm)))) (keysFrom (Suc i) isReply ms)
       = map (\<lambda>(k, sl). case sl of None \<Rightarrow> linkOf cm k
                | Some j \<Rightarrow> Some ((ans @ map fst ?q @ keysFrom (Suc i) isUser ms) ! j))
           (zip (keysFrom (Suc i) isReply ms) (slots (Suc u) b ms))"
      using Cons.prems True nr by (intro Cons.IH) auto
    then show ?thesis using True nr step by simp
  next
    case False
    note nu = this
    show ?thesis
    proof (cases "isReply m")
      case False
      with nu have step: "matchStep (q, cm) m i = (q, cm)"
        by (simp add: matchStep_other)
      have "map (linkOf (snd (forEachFrom (Suc i) ms matchStep (q, cm)))) (keysFrom (Suc i) isReply ms)
         = map (\<lambda>(k, sl). case sl of None \<Rightarrow> linkOf cm k
                  | Some j \<Rightarrow> Some ((ans @ map fst q @ keysFrom (Suc i) isUser ms) ! j))
             (zip (keysFrom (Suc i) isReply ms) (slots u b ms))"
        using Cons.prems nu False by (intro Cons.IH) auto
      then show ?thesis using nu False step by simp
    next
      case True
      let ?k = "messageKey m i"
      from True Cons.prems(1) have dist: "distinct (keysFrom (Suc i) isReply ms)"
        and fresh: "?k \<notin> set (keysFrom (Suc i) isReply ms)" by simp_all
      show ?thesis
      proof (cases q)
        case Nil
        then have step: "matchStep (q, cm) m i = (q, cm)"
          using nu True by (simp add: matchStep_reply_Nil)
        from Nil Cons.prems(4) have ub: "\<not> b < u" by simp
        have IH: "map (linkOf (snd (forEachFrom (Suc i) ms matchStep (q, cm)))) (keysFrom (Suc i) isReply ms)
           = map (\<lambda>(k, sl). case sl of None \<Rightarrow> linkOf cm k
                    | Some j \<Rightarrow> Some ((ans @ map fst q @ keysFrom (Suc i) isUser ms) ! j))
               (zip (keysFrom (Suc i) isReply ms) (slots u b ms))"
          using Cons.prems nu dist by (intro Cons.IH) auto
        have "linkOf (snd (forEachFrom (Suc i) ms matchStep (q, cm))) ?k = linkOf cm ?k"
          using match_frame [OF fresh] by (simp add: linkOf_def)
        with IH show ?thesis using nu True step ub by simp
      next
        case (Cons e q')
        let ?cm = "cm(?k \<mapsto> replyRecord e)"
        have step: "matchStep (q, cm) m i = (q', ?cm)"
          using nu True Cons by (simp add: matchStep_reply_Cons)
        from Cons Cons.prems(4) have ub: "b < u" by simp
        have IH: "map (linkOf (snd (forEachFrom (Suc i) ms matchStep (q', ?cm)))) (keysFrom (Suc i) isReply ms)
           = map (\<lambda>(k, sl). case sl of None \<Rightarrow> linkOf ?cm k
                    | Some j \<Rightarrow> Some (((ans @ [fst e]) @ map fst q' @ keysFrom (Suc i) isUser ms) ! j))
               (zip (keysFrom (Suc i) isReply ms) (slots u (Suc b) ms))"
          using Cons.prems nu dist Cons by (intro Cons.IH) auto
        have same: "linkOf ?cm k = linkOf cm k" if "k \<in> set (keysFrom (Suc i) isReply ms)" for k
          using that fresh by (auto simp: linkOf_def)
        have IH': "map (linkOf (snd (forEachFrom (Suc i) ms matchStep (q', ?cm)))) (keysFrom (Suc i) isReply ms)
           = map (\<lambda>(k, sl). case sl of None \<Rightarrow> linkOf cm k
                    | Some j \<Rightarrow> Some ((ans @ map fst q @ keysFrom (Suc i) isUser ms) ! j))
               (zip (keysFrom (Suc i) isReply ms) (slots u (Suc b) ms))"
          unfolding IH using same Cons
          by (intro map_cong refl) (auto dest: set_zip_leftD split: option.splits)
        have head: "linkOf (snd (forEachFrom (Suc i) ms matchStep (q', ?cm))) ?k = Some (fst e)"
          using match_frame [OF fresh, of q' ?cm] by (simp add: linkOf_def replyRecord_def)
        have nth: "(ans @ map fst q @ keysFrom (Suc i) isUser ms) ! b = fst e"
          using Cons Cons.prems(3) by (simp add: nth_append)
        show ?thesis using nu True step ub IH' head nth by simp
      qed
    qed
  qed
qed

section \<open>Links of the whole computation\<close>

lemma number_link:
  "(\<And>k. linkOf cm k = None) \<Longrightarrow> linkOf (snd (forEachFrom i ms numberStep (c, cm))) k = None"
proof (induction ms arbitrary: i c cm)
  case Nil
  then show ?case by simp
next
  case (Cons m ms)
  show ?case
  proof (cases "isUser m")
    case True
    have "linkOf (cm(messageKey m i \<mapsto> userRecord (Suc c))) k' = None" for k'
      using Cons.prems [of k'] by (simp add: linkOf_def userRecord_def)
    then have "linkOf (snd (forEachFrom (Suc i) ms numberStep
        (Suc c, cm(messageKey m i \<mapsto> userRecord (Suc c))))) k = None"
      by (rule Cons.IH)
    then show ?thesis using True by (simp add: numberStep_user)
  next
    case False
    then show ?thesis using Cons by (simp add: numberStep_other)
  qed
qed

lemma linkOf_pending_fun: "linkOf (snd (foldl pendingStep (n, cm) pend)) = linkOf cm"
  by (rule ext) (rule linkOf_pending)

lemma correlation_links:
  assumes "distinct (idsOf isReply msgs)"
  shows "map (linkOf (useMessageCorrelation msgs pend)) (replyKeys msgs)
       = map (map_option (\<lambda>j. userKeys msgs ! j)) (slots 0 0 msgs)"
proof -
  let ?cm1 = "snd (forEachFrom 0 msgs numberStep (0, Map.empty))"
  let ?cm2 = "snd (forEachFrom 0 msgs matchStep ([], ?cm1))"
  have l1: "linkOf ?cm1 k = None" for k
    by (rule number_link) (simp add: linkOf_def)
  have d: "distinct (keysFrom 0 isReply msgs)" using assms by (rule distinct_keysFrom)
  have dom: "\<forall>k \<in> set (keysFrom 0 isUser msgs). ?cm1 k \<noteq> None"
    by (simp add: number_dom)
  have "map (linkOf ?cm2) (keysFrom 0 isReply msgs)
      = map (\<lambda>(k, sl). case sl of None \<Rightarrow> linkOf ?cm1 k
                | Some j \<Rightarrow> Some (keysFrom 0 isUser msgs ! j))
          (zip (keysFrom 0 isReply msgs) (slots 0 0 msgs))"
    using match_links [OF d dom, of "[]" 0 0 "[]"] by simp
  also have "\<dots> = map (\<lambda>(k, sl). map_option (\<lambda>j. userKeys msgs ! j) sl)
          (zip (keysFrom 0 isReply msgs) (slots 0 0 msgs))"
    by (intro map_cong refl) (auto simp: l1 userKeys_def split: option.splits)
  also have "\<dots> = map (map_option (\<lambda>j. userKeys msgs ! j)) (map snd (zip (keysFrom 0 isReply msgs) (slots 0 0 msgs)))"
    by (simp add: case_prod_unfold)
  also have "\<dots> = map (map_option (\<lambda>j. userKeys msgs ! j)) (slots 0 0 msgs)"
    by (simp add: slots_length [of 0 0 msgs 0])
  finally show ?thesis
    by (simp add: useMessageCorrelation_def forEach_def Let_def linkOf_pending_fun replyKeys_def)
qed

section \<open>Slots\<close>

lemma nbound_simps [simp]:
  "nbound [] = 0" "nbound (Some j # sl) = Suc (nbound sl)" "nbound (None # sl) = nbound sl"
  by (simp_all add: nbound_def)

lemma slots_append:
  "slots u b (xs @ ys)
   = slots u b xs @ slots (u + length (filter isUser xs)) (b + nbound (slots u b xs)) ys"
  by (induction xs arbitrary: u b) simp_all

lemma slots_values:
  "b \<le> u \<Longrightarrow> filter (\<lambda>x. x \<noteq> None) (slots u b ms) = map Some [b ..< b + nbound (slots u b ms)]
     \<and> b + nbound (slots u b ms) \<le> u + length (filter isUser ms)"
proof (induction ms arbitrary: u b)
  case Nil
  then show ?case by simp
next
  case (Cons m ms)
  show ?case
  proof (cases "isUser m")
    case True
    have "filter (\<lambda>x. x \<noteq> None) (slots (Suc u) b ms) = map Some [b ..< b + nbound (slots (Suc u) b ms)]
       \<and> b + nbound (slots (Suc u) b ms) \<le> Suc u + length (filter isUser ms)"
      using Cons.prems by (intro Cons.IH) simp
    with True show ?thesis by simp
  next
    case nu: False
    show ?thesis
    proof (cases "isReply m \<and> b < u")
      case True
      let ?n = "nbound (slots u (Suc b) ms)"
      have IH: "filter (\<lambda>x. x \<noteq> None) (slots u (Suc b) ms) = map Some [Suc b ..< Suc b + ?n]
         \<and> Suc b + ?n \<le> u + length (filter isUser ms)"
        using True by (intro Cons.IH) simp
      have e: "[b ..< b + Suc ?n] = b # [Suc b ..< Suc b + ?n]"
        by (simp add: upt_conv_Cons)
      have s: "slots u b (m # ms) = Some b # slots u (Suc b) ms" using True nu by simp
      show ?thesis unfolding s using IH nu e by simp
    next
      case False
      have IH: "filter (\<lambda>x. x \<noteq> None) (slots u b ms) = map Some [b ..< b + nbound (slots u b ms)]
         \<and> b + nbound (slots u b ms) \<le> u + length (filter isUser ms)"
        using Cons.prems by (intro Cons.IH)
      have s: "slots u b (m # ms) = (if isReply m then None # slots u b ms else slots u b ms)"
        using False nu by auto
      show ?thesis unfolding s using IH nu by simp
    qed
  qed
qed

lemma slots_pace:
  "(\<And>n. n \<le> length ms \<Longrightarrow>
      b + length (filter isReply (take n ms)) \<le> u + length (filter isUser (take n ms)))
   \<Longrightarrow> slots u b ms = map Some [b ..< b + length (filter isReply ms)]"
proof (induction ms arbitrary: u b)
  case Nil
  then show ?case by simp
next
  case (Cons m ms)
  have tl: "b + length (filter isReply (take (Suc n) (m # ms)))
             \<le> u + length (filter isUser (take (Suc n) (m # ms)))" if "n \<le> length ms" for n
    using Cons.prems [of "Suc n"] that by simp
  show ?case
  proof (cases "isUser m")
    case True
    have "slots (Suc u) b ms = map Some [b ..< b + length (filter isReply ms)]"
      using tl True by (intro Cons.IH) (simp add: user_not_reply)
    with True show ?thesis by (simp add: user_not_reply)
  next
    case nu: False
    show ?thesis
    proof (cases "isReply m")
      case True
      from tl [of 0] True nu have lt: "b < u" by simp
      have IH: "slots u (Suc b) ms = map Some [Suc b ..< Suc b + length (filter isReply ms)]"
        using tl True nu by (intro Cons.IH) simp
      have e: "[b ..< b + Suc (length (filter isReply ms))]
               = b # [Suc b ..< Suc b + length (filter isReply ms)]"
        by (subst upt_rec) simp
      have s: "slots u b (m # ms) = Some b # slots u (Suc b) ms" using True nu lt by simp
      have f: "length (filter isReply (m # ms)) = Suc (length (filter isReply ms))"
        using True by simp
      show ?thesis unfolding s f e IH by (simp only: list.map)
    next
      case False
      have "slots u b ms = map Some [b ..< b + length (filter isReply ms)]"
        using tl False nu by (intro Cons.IH) simp
      with False nu show ?thesis by simp
    qed
  qed
qed

lemma filter_notin_take:
  assumes "distinct xs"
  shows "filter (\<lambda>x. x \<notin> set (take n xs)) xs = drop n xs"
proof -
  let ?P = "\<lambda>x. x \<notin> set (take n xs)"
  have "distinct (take n xs @ drop n xs)" using assms by simp
  then have disj: "set (take n xs) \<inter> set (drop n xs) = {}" by (simp only: distinct_append)
  have a: "filter ?P (take n xs) = []" by (simp add: filter_empty_conv)
  have b: "filter ?P (drop n xs) = drop n xs"
    using disj by (intro filter_True) auto
  have "filter ?P xs = filter ?P (take n xs @ drop n xs)" by simp
  also have "\<dots> = filter ?P (take n xs) @ filter ?P (drop n xs)" by (rule filter_append)
  finally show ?thesis by (simp only: a b append_Nil)
qed

section \<open>First-in first-out matching\<close>

lemma take_idsOf_distinct:
  "distinct (idsOf P msgs) \<Longrightarrow> distinct (idsOf P (take i msgs))"
proof -
  assume "distinct (idsOf P msgs)"
  then have "distinct (idsOf P (take i msgs @ drop i msgs))" by simp
  then show ?thesis by (simp only: idsOf_append distinct_append)
qed

lemma Some_in_map_option: "Some u \<in> set (map (map_option f) sl) \<longleftrightarrow> (\<exists>j. Some j \<in> set sl \<and> u = f j)"
  by (induction sl) (auto simp: map_option_case split: option.splits)

lemma Some_in_slots:
  assumes "filter (\<lambda>x. x \<noteq> None) sl = map Some [0 ..< B]"
  shows "Some j \<in> set sl \<longleftrightarrow> j < B"
proof -
  have "Some j \<in> set sl \<longleftrightarrow> Some j \<in> set (filter (\<lambda>x. x \<noteq> None) sl)" by simp
  also have "\<dots> \<longleftrightarrow> j < B" unfolding assms by auto
  finally show ?thesis .
qed

lemma fifo_at:
  assumes du: "distinct (idsOf isUser msgs)" and dr: "distinct (idsOf isReply msgs)"
    and i: "i < length msgs" and r: "isReply (msgs ! i)"
  shows "linkOf (useMessageCorrelation msgs pend) (messageKey (msgs ! i) i)
       = (case unanswered (useMessageCorrelation msgs pend) msgs i of [] \<Rightarrow> None | u # _ \<Rightarrow> Some u)"
proof -
  define cm where "cm = useMessageCorrelation msgs pend"
  define P where "P = take i msgs"
  define m where "m = msgs ! i"
  define R where "R = drop (Suc i) msgs"
  define UK where "UK = userKeys msgs"
  define UKP where "UKP = userKeys P"
  define sP where "sP = slots 0 0 P"
  define B where "B = nbound sP"
  define U where "U = length (filter isUser P)"
  have split: "msgs = P @ m # R" using i by (simp add: P_def m_def R_def id_take_nth_drop)
  have lenP: "length P = i" using i by (simp add: P_def)
  have rm: "isReply m" and num: "\<not> isUser m" using r user_not_reply by (auto simp: m_def)
  have UK_app: "UK = UKP @ keysFrom i isUser (m # R)"
    by (simp add: UK_def UKP_def userKeys_def split keysFrom_append lenP)
  have lenUKP: "length UKP = U" by (simp add: UKP_def U_def userKeys_def length_keysFrom)
  have RK_app: "replyKeys msgs = replyKeys P @ messageKey m i # keysFrom (Suc i) isReply R"
    using rm by (simp add: replyKeys_def split keysFrom_append lenP)
  have lenRKP: "length (replyKeys P) = length sP"
    by (simp add: sP_def replyKeys_def slots_length [of 0 0 P 0])
  have sl_app: "slots 0 0 msgs = sP @ (if B < U then Some B else None)
                  # (if B < U then slots U (Suc B) R else slots U B R)"
    using rm num by (simp add: split slots_append sP_def B_def U_def)
  have vals: "filter (\<lambda>x. x \<noteq> None) sP = map Some [0 ..< B]" and BU: "B \<le> U"
    using slots_values [of 0 0 P] by (simp_all add: sP_def B_def U_def)
  have TL: "map (linkOf cm) (replyKeys msgs) = map (map_option (\<lambda>j. UK ! j)) (slots 0 0 msgs)"
    unfolding cm_def UK_def by (rule correlation_links [OF dr])
  have "map (linkOf cm) (replyKeys P) @ linkOf cm (messageKey m i) # map (linkOf cm) (keysFrom (Suc i) isReply R)
      = map (map_option (\<lambda>j. UK ! j)) sP @ map_option (\<lambda>j. UK ! j) (if B < U then Some B else None)
          # map (map_option (\<lambda>j. UK ! j)) (if B < U then slots U (Suc B) R else slots U B R)"
    using TL unfolding RK_app sl_app by simp
  then have before: "map (linkOf cm) (replyKeys P) = map (map_option (\<lambda>j. UK ! j)) sP"
    and here: "linkOf cm (messageKey m i) = map_option (\<lambda>j. UK ! j) (if B < U then Some B else None)"
    using lenRKP by simp_all
  have UKnth: "UK ! j = UKP ! j" if "j < B" for j
    using that BU lenUKP by (simp add: UK_app nth_append)
  have answered: "Some u \<in> set (map (linkOf cm) (replyKeys P)) \<longleftrightarrow> u \<in> set (take B UKP)" for u
  proof -
    have "Some u \<in> set (map (linkOf cm) (replyKeys P)) \<longleftrightarrow> (\<exists>j<B. u = UK ! j)"
      unfolding before Some_in_map_option using Some_in_slots [OF vals] by auto
    also have "\<dots> \<longleftrightarrow> (\<exists>j<B. u = UKP ! j)" using UKnth by auto
    also have "\<dots> \<longleftrightarrow> u \<in> set (take B UKP)"
      using BU lenUKP by (auto simp: in_set_conv_nth)
    finally show ?thesis .
  qed
  have dP: "distinct UKP"
    unfolding UKP_def userKeys_def P_def
    by (intro distinct_keysFrom take_idsOf_distinct du)
  have "unanswered cm msgs i = filter (\<lambda>u. u \<notin> set (take B UKP)) UKP"
    unfolding unanswered_def using answered by (simp add: P_def [symmetric] UKP_def [symmetric])
  also have "\<dots> = drop B UKP" by (rule filter_notin_take [OF dP])
  finally have un: "unanswered cm msgs i = drop B UKP" .
  show ?thesis
  proof (cases "B < U")
    case True
    then have "drop B UKP = UKP ! B # drop (Suc B) UKP"
      using lenUKP by (simp add: Cons_nth_drop_Suc)
    moreover have "UK ! B = UKP ! B" using True lenUKP by (simp add: UK_app nth_append)
    ultimately show ?thesis using here True un by (simp add: cm_def m_def)
  next
    case False
    then have "drop B UKP = []" using lenUKP by simp
    then show ?thesis using here False un by (simp add: cm_def m_def)
  qed
qed

lemma fifo_pace:
  assumes du: "distinct (idsOf isUser msgs)" and dr: "distinct (idsOf isReply msgs)"
    and pace: "repliesKeepPace msgs"
  shows "map (linkOf (useMessageCorrelation msgs pend)) (replyKeys msgs)
           = map Some (take (length (replyKeys msgs)) (userKeys msgs))"
    and "distinct (map (linkOf (useMessageCorrelation msgs pend)) (replyKeys msgs))"
proof -
  let ?n = "length (filter isReply msgs)"
  have sl: "slots 0 0 msgs = map Some [0 ..< 0 + ?n]"
    using pace by (intro slots_pace) (simp add: repliesKeepPace_def)
  have "length (filter isReply (take (length msgs) msgs))
          \<le> length (filter isUser (take (length msgs) msgs))"
    using pace unfolding repliesKeepPace_def by blast
  then have le: "?n \<le> length (userKeys msgs)"
    by (simp add: userKeys_def length_keysFrom)
  have "map (linkOf (useMessageCorrelation msgs pend)) (replyKeys msgs)
        = map (\<lambda>j. Some (userKeys msgs ! j)) [0 ..< ?n]"
    unfolding correlation_links [OF dr] sl by simp
  also have "\<dots> = map Some (take ?n (userKeys msgs))"
    using le by (intro nth_equalityI) simp_all
  finally show 1: "map (linkOf (useMessageCorrelation msgs pend)) (replyKeys msgs)
           = map Some (take (length (replyKeys msgs)) (userKeys msgs))"
    by (simp add: replyKeys_def length_keysFrom)
  have "distinct (userKeys msgs)" unfolding userKeys_def by (intro distinct_keysFrom du)
  then show "distinct (map (linkOf (useMessageCorrelation msgs pend)) (replyKeys msgs))"
    unfolding 1 by (simp add: distinct_map)
qed

text \<open>
  C1, amended. For every log in which the user messages carry pairwise distinct ids and
  the non-system assistant messages carry pairwise distinct ids (a message without id
  is keyed by its position): every non-system assistant message is linked to the oldest
  user message before it that no earlier non-system assistant message is linked to, and
  carries no link when there is none; and when in every prefix of the log the
  non-system assistant messages are at most as many as the user messages, the k-th of
  them is linked to the k-th user message, so that each one is bound and no user
  message is bound twice.
\<close>

theorem fifo_matching:
  assumes "distinct (idsOf isUser msgs)" and "distinct (idsOf isReply msgs)"
  shows "(\<forall>i < length msgs. isReply (msgs ! i) \<longrightarrow>
            linkOf (useMessageCorrelation msgs pend) (messageKey (msgs ! i) i)
              = (case unanswered (useMessageCorrelation msgs pend) msgs i of
                   [] \<Rightarrow> None | u # _ \<Rightarrow> Some u))
       \<and> (repliesKeepPace msgs \<longrightarrow>
            map (linkOf (useMessageCorrelation msgs pend)) (replyKeys msgs)
              = map Some (take (length (replyKeys msgs)) (userKeys msgs))
          \<and> distinct (map (linkOf (useMessageCorrelation msgs pend)) (replyKeys msgs)))"
  using fifo_at [OF assms] fifo_pace [OF assms] by blast

lemmas correlation_eval = useMessageCorrelation_def forEach_def numberStep_def matchStep_def
  pendingStep_def messageKey_def askMsg_def replyMsg_def noticeMsg_def Let_def linkOf_def
  userRecord_def replyRecord_def

lemmas kind_eval = isUser_def isReply_def isSystemNotice_def askMsg_def replyMsg_def noticeMsg_def

text \<open>
  C1, as stated, fails. A reply that precedes the only question stays without a record
  although the replies are not more than the questions. Two replies that share an id
  share one record, so the first one reads as linked to the second question; two
  questions that share an id cannot be told apart by the links.
\<close>

theorem fifo_matching_counterexample:
  "length (filter isReply [replyMsg ''r1'', askMsg ''m1''])
     \<le> length (filter isUser [replyMsg ''r1'', askMsg ''m1''])
   \<and> isReply (replyMsg ''r1'')
   \<and> useMessageCorrelation [replyMsg ''r1'', askMsg ''m1''] [] (messageKey (replyMsg ''r1'') 0) = None
   \<and> linkOf (useMessageCorrelation
        [askMsg ''m1'', askMsg ''m2'', replyMsg ''r1'', replyMsg ''r1''] [])
        (messageKey (replyMsg ''r1'') 2) = Some (KStr ''m2'')
   \<and> map (linkOf (useMessageCorrelation
        [askMsg ''m1'', askMsg ''m1'', replyMsg ''r1'', replyMsg ''r2''] []))
        [KStr ''r1'', KStr ''r2''] = [Some (KStr ''m1''), Some (KStr ''m1'')]"
  by (simp add: correlation_eval isUser_def isReply_def)

lemma logFive_pace: "repliesKeepPace logFive"
  unfolding repliesKeepPace_def
proof (intro allI impI)
  fix n assume "n \<le> length logFive"
  then have "n \<le> 5" by (simp add: logFive_def)
  then consider "n = 0" | "n = 1" | "n = 2" | "n = 3" | "n = 4" | "n = 5" by arith
  then show "length (filter isReply (take n logFive)) \<le> length (filter isUser (take n logFive))"
    by cases (simp_all add: logFive_def kind_eval)
qed

theorem fifo_matching_witness:
  "distinct (idsOf isUser logFive) \<and> distinct (idsOf isReply logFive)
   \<and> repliesKeepPace logFive
   \<and> isReply (logFive ! 3)
   \<and> unanswered (useMessageCorrelation logFive []) logFive 3 = [KStr ''m1'', KStr ''m2'']
   \<and> linkOf (useMessageCorrelation logFive []) (messageKey (logFive ! 3) 3) = Some (KStr ''m1'')
   \<and> map (linkOf (useMessageCorrelation logFive [])) (replyKeys logFive)
        = [Some (KStr ''m1''), Some (KStr ''m2'')]"
proof -
  have d: "distinct (idsOf isUser logFive)" "distinct (idsOf isReply logFive)"
    by (simp_all add: logFive_def kind_eval truthyStr_def)
  have k: "replyKeys logFive = [KStr ''r1'', KStr ''r2'']" "userKeys logFive = [KStr ''m1'', KStr ''m2'']"
    "isReply (logFive ! 3)" "messageKey (logFive ! 3) 3 = KStr ''r1''"
    by (simp_all add: replyKeys_def userKeys_def logFive_def kind_eval messageKey_def)
  have u: "unanswered (useMessageCorrelation logFive []) logFive 3 = [KStr ''m1'', KStr ''m2'']"
    by (simp add: unanswered_def logFive_def replyKeys_def userKeys_def kind_eval messageKey_def
          numeral_3_eq_3)
  show ?thesis
    using fifo_matching [OF d, of "[]"] logFive_pace d k u by simp
qed

section \<open>Numbering\<close>

subsection \<open>The matching pass keeps the numbers of the user messages\<close>

lemma pairing_append:
  "set (pairing q i xs) \<subseteq> set (pairing q i (xs @ ys))"
proof (induction xs arbitrary: q i)
  case Nil
  then show ?case by simp
next
  case (Cons m xs)
  show ?case
  proof (cases q)
    case Nil
    with Cons show ?thesis by auto
  next
    case (Cons u rest)
    with Cons.IH show ?thesis by auto
  qed
qed

lemma match_numbers:
  assumes "set (keysFrom i isUser ms) \<subseteq> UK"
    and "\<forall>k \<in> UK. N k \<noteq> None \<and> map_option correlationNumber (cm k) = N k"
    and "\<forall>(u, n) \<in> set q. u \<in> UK \<and> N u = Some n"
    and "\<forall>(r, u) \<in> set (pairing (map fst q) i ms). r \<in> UK \<longrightarrow> r = u"
  shows "\<forall>k \<in> UK. map_option correlationNumber (snd (forEachFrom i ms matchStep (q, cm)) k) = N k"
  using assms
proof (induction ms arbitrary: i q cm)
  case Nil
  then show ?case by simp
next
  case (Cons m ms)
  show ?case
  proof (cases "isUser m")
    case True
    with Cons.prems(1) have k: "messageKey m i \<in> UK"
      and rest: "set (keysFrom (Suc i) isUser ms) \<subseteq> UK" by simp_all
    from k Cons.prems(2) obtain d where d: "cm (messageKey m i) = Some d"
      and n: "N (messageKey m i) = Some (correlationNumber d)"
      by (cases "cm (messageKey m i)") force+
    have q': "\<forall>(u, n) \<in> set (q @ [(messageKey m i, correlationNumber d)]). u \<in> UK \<and> N u = Some n"
      using Cons.prems(3) k n by auto
    have p': "\<forall>(r, u) \<in> set (pairing (map fst (q @ [(messageKey m i, correlationNumber d)])) (Suc i) ms).
                r \<in> UK \<longrightarrow> r = u"
      using Cons.prems(4) True by simp
    have "\<forall>k \<in> UK. map_option correlationNumber
            (snd (forEachFrom (Suc i) ms matchStep (q @ [(messageKey m i, correlationNumber d)], cm)) k) = N k"
      by (rule Cons.IH [OF rest Cons.prems(2) q' p'])
    then show ?thesis using True d by (simp add: matchStep_user)
  next
    case False
    then have rest: "set (keysFrom (Suc i) isUser ms) \<subseteq> UK" using Cons.prems(1) by simp
    show ?thesis
    proof (cases "isReply m")
      case nr: False
      have p': "\<forall>(r, u) \<in> set (pairing (map fst q) (Suc i) ms). r \<in> UK \<longrightarrow> r = u"
        using Cons.prems(4) False nr by simp
      have "\<forall>k \<in> UK. map_option correlationNumber
              (snd (forEachFrom (Suc i) ms matchStep (q, cm)) k) = N k"
        by (rule Cons.IH [OF rest Cons.prems(2) Cons.prems(3) p'])
      then show ?thesis using False nr by (simp add: matchStep_other)
    next
      case r: True
      show ?thesis
      proof (cases q)
        case Nil
        have p': "\<forall>(r, u) \<in> set (pairing (map fst []) (Suc i) ms). r \<in> UK \<longrightarrow> r = u"
          using Cons.prems(4) False r Nil by simp
        have "\<forall>k \<in> UK. map_option correlationNumber
                (snd (forEachFrom (Suc i) ms matchStep ([], cm)) k) = N k"
          by (rule Cons.IH [OF rest Cons.prems(2) _ p']) simp
        then show ?thesis using r Nil by (simp add: matchStep_reply_Nil)
      next
        case (Cons e rest_q)
        obtain u n where e: "e = (u, n)" by (cases e)
        from Cons.prems(3) Cons e have u: "u \<in> UK" "N u = Some n" by auto
        have here: "messageKey m i \<in> UK \<longrightarrow> messageKey m i = u"
          using Cons.prems(4) False r Cons e by simp
        have p': "\<forall>(r, u) \<in> set (pairing (map fst rest_q) (Suc i) ms). r \<in> UK \<longrightarrow> r = u"
          using Cons.prems(4) False r Cons e by simp
        have q': "\<forall>(u, n) \<in> set rest_q. u \<in> UK \<and> N u = Some n"
          using Cons.prems(3) Cons by simp
        have cm': "\<forall>k \<in> UK. N k \<noteq> None
            \<and> map_option correlationNumber ((cm(messageKey m i \<mapsto> replyRecord e)) k) = N k"
          using Cons.prems(2) here u e by (auto simp: replyRecord_def)
        have "\<forall>k \<in> UK. map_option correlationNumber
                (snd (forEachFrom (Suc i) ms matchStep (rest_q, cm(messageKey m i \<mapsto> replyRecord e))) k) = N k"
          by (rule Cons.IH [OF rest cm' q' p'])
        then show ?thesis using r Cons by (simp add: matchStep_reply_Cons)
      qed
    qed
  qed
qed

lemma echoesInTurn_prefix:
  assumes "echoesInTurn (L @ E)"
  shows "echoesInTurn L"
  unfolding echoesInTurn_def list_all_iff
proof (intro ballI)
  fix p assume "p \<in> set (pairing [] 0 L)"
  moreover have "set (pairing [] 0 L) \<subseteq> set (pairing [] 0 (L @ E))"
    by (rule pairing_append)
  ultimately have "p \<in> set (pairing [] 0 (L @ E))" by (rule subsetD [rotated])
  with assms have "case p of (r, u) \<Rightarrow> r \<in> set (userKeys (L @ E)) \<longrightarrow> r = u"
    unfolding echoesInTurn_def list_all_iff by (rule bspec)
  moreover have "userKeys (L @ E) = userKeys L @ keysFrom (length L) isUser E"
    by (simp add: userKeys_def keysFrom_append)
  ultimately show "case p of (r, u) \<Rightarrow> r \<in> set (userKeys L) \<longrightarrow> r = u"
    by (cases p) simp
qed

lemma user_number:
  assumes du: "distinct (idsOf isUser msgs)" and e: "echoesInTurn msgs"
    and t: "t < length (userKeys msgs)"
  shows "map_option correlationNumber (useMessageCorrelation msgs pend (userKeys msgs ! t))
         = Some (Suc t)"
proof -
  let ?k = "userKeys msgs ! t"
  let ?cm1 = "snd (forEachFrom 0 msgs numberStep (0, Map.empty))"
  let ?cm2 = "snd (forEachFrom 0 msgs matchStep ([], ?cm1))"
  let ?N = "\<lambda>k. map_option correlationNumber (?cm1 k)"
  have d: "distinct (keysFrom 0 isUser msgs)" using du by (rule distinct_keysFrom)
  have k: "?k \<in> set (userKeys msgs)" using t by simp
  have 1: "?cm1 ?k = Some (userRecord (Suc t))"
    using number_nth [OF d, of t 0 Map.empty] t by (simp add: userKeys_def)
  have dom: "\<forall>k \<in> set (userKeys msgs). ?N k \<noteq> None \<and> map_option correlationNumber (?cm1 k) = ?N k"
    using number_dom [of _ 0 msgs 0 Map.empty] by (simp add: userKeys_def)
  have pr: "\<forall>(r, u) \<in> set (pairing (map fst []) 0 msgs). r \<in> set (userKeys msgs) \<longrightarrow> r = u"
    using e by (simp add: echoesInTurn_def list_all_iff)
  have "\<forall>k \<in> set (userKeys msgs). map_option correlationNumber (?cm2 k) = ?N k"
    by (rule match_numbers [OF _ dom _ pr]) (simp_all add: userKeys_def)
  with k have 2: "map_option correlationNumber (?cm2 ?k) = Some (Suc t)"
    using 1 by (simp add: userRecord_def)
  then have "?cm2 ?k \<noteq> None" by auto
  then have "snd (foldl pendingStep (fst (forEachFrom 0 msgs numberStep (0, Map.empty)), ?cm2) pend) ?k = ?cm2 ?k"
    by (rule pending_keep)
  with 2 show ?thesis
    by (simp add: useMessageCorrelation_def forEach_def Let_def)
qed




lemma user_numbers_prefix:
  assumes du: "distinct (idsOf isUser (L @ E))" and e: "echoesInTurn (L @ E)"
  shows "map (\<lambda>k. map_option correlationNumber (useMessageCorrelation (L @ E) pend k)) (userKeys L)
         = map Some [1 ..< Suc (length (userKeys L))]"
proof (rule nth_equalityI)
  show "length (map (\<lambda>k. map_option correlationNumber (useMessageCorrelation (L @ E) pend k)) (userKeys L))
        = length (map Some [1 ..< Suc (length (userKeys L))])" by (simp del: upt_Suc)
next
  fix t assume "t < length (map (\<lambda>k. map_option correlationNumber (useMessageCorrelation (L @ E) pend k)) (userKeys L))"
  then have t: "t < length (userKeys L)" by simp
  have app: "userKeys (L @ E) = userKeys L @ keysFrom (length L) isUser E"
    by (simp add: userKeys_def keysFrom_append)
  have "map_option correlationNumber (useMessageCorrelation (L @ E) pend (userKeys (L @ E) ! t)) = Some (Suc t)"
    using t by (intro user_number [OF du e]) (simp add: app)
  then have "map_option correlationNumber (useMessageCorrelation (L @ E) pend (userKeys L ! t)) = Some (Suc t)"
    using t by (simp add: app nth_append)
  moreover have "[1 ..< Suc (length (userKeys L))] ! t = 1 + t"
    using t by (intro nth_upt) simp
  moreover have "map Some [1 ..< Suc (length (userKeys L))] ! t = Some ([1 ..< Suc (length (userKeys L))] ! t)"
    using t by (intro nth_map) (simp del: upt_Suc)
  moreover have "map (\<lambda>k. map_option correlationNumber (useMessageCorrelation (L @ E) pend k)) (userKeys L) ! t
      = map_option correlationNumber (useMessageCorrelation (L @ E) pend (userKeys L ! t))"
    using t by (intro nth_map)
  ultimately show "map (\<lambda>k. map_option correlationNumber (useMessageCorrelation (L @ E) pend k)) (userKeys L) ! t
        = map Some [1 ..< Suc (length (userKeys L))] ! t"
    by (simp only: Suc_eq_plus1_left)
qed

subsection \<open>The pairs and the computed links\<close>

text \<open>
  The pairs are the links of the computed map when the matching assistant messages carry
  pairwise distinct ids; and a log in which no user message shares its id with a matching
  assistant message satisfies \<open>echoesInTurn\<close>.
\<close>

lemma match_pairing:
  assumes "distinct (keysFrom i isReply ms)"
    and "\<forall>k \<in> set (keysFrom i isUser ms). cm k \<noteq> None"
    and "p \<in> set (pairing (map fst q) i ms)"
  shows "linkOf (snd (forEachFrom i ms matchStep (q, cm))) (fst p) = Some (snd p)"
  using assms
proof (induction ms arbitrary: i q cm)
  case Nil
  then show ?case by simp
next
  case (Cons m ms)
  show ?case
  proof (cases "isUser m")
    case True
    with Cons.prems(2) obtain d where d: "cm (messageKey m i) = Some d" by auto
    have "linkOf (snd (forEachFrom (Suc i) ms matchStep
            (q @ [(messageKey m i, correlationNumber d)], cm))) (fst p) = Some (snd p)"
    proof (rule Cons.IH)
      show "distinct (keysFrom (Suc i) isReply ms)"
        using Cons.prems(1) True by (simp add: user_not_reply)
      show "\<forall>k \<in> set (keysFrom (Suc i) isUser ms). cm k \<noteq> None"
        using Cons.prems(2) True by simp
      show "p \<in> set (pairing (map fst (q @ [(messageKey m i, correlationNumber d)])) (Suc i) ms)"
        using Cons.prems(3) True by simp
    qed
    then show ?thesis using True d by (simp add: matchStep_user)
  next
    case False
    then have dom: "\<forall>k \<in> set (keysFrom (Suc i) isUser ms). cm k \<noteq> None"
      using Cons.prems(2) by simp
    show ?thesis
    proof (cases "isReply m")
      case nr: False
      have "linkOf (snd (forEachFrom (Suc i) ms matchStep (q, cm))) (fst p) = Some (snd p)"
      proof (rule Cons.IH [OF _ dom])
        show "distinct (keysFrom (Suc i) isReply ms)" using Cons.prems(1) nr by simp
        show "p \<in> set (pairing (map fst q) (Suc i) ms)" using Cons.prems(3) False nr by simp
      qed
      then show ?thesis using False nr by (simp add: matchStep_other)
    next
      case r: True
      with Cons.prems(1) have dist: "distinct (keysFrom (Suc i) isReply ms)"
        and fresh: "messageKey m i \<notin> set (keysFrom (Suc i) isReply ms)" by simp_all
      show ?thesis
      proof (cases q)
        case Nil
        have "linkOf (snd (forEachFrom (Suc i) ms matchStep ([], cm))) (fst p) = Some (snd p)"
        proof (rule Cons.IH [OF dist dom])
          show "p \<in> set (pairing (map fst []) (Suc i) ms)" using Cons.prems(3) False r Nil by simp
        qed
        then show ?thesis using r Nil by (simp add: matchStep_reply_Nil)
      next
        case (Cons e rest)
        let ?cm = "cm(messageKey m i \<mapsto> replyRecord e)"
        from Cons.prems(3) False r Cons
        consider "p = (messageKey m i, fst e)" | "p \<in> set (pairing (map fst rest) (Suc i) ms)"
          by auto
        then have "linkOf (snd (forEachFrom (Suc i) ms matchStep (rest, ?cm))) (fst p) = Some (snd p)"
        proof cases
          case 1
          have "snd (forEachFrom (Suc i) ms matchStep (rest, ?cm)) (messageKey m i) = ?cm (messageKey m i)"
            using fresh by (rule match_frame)
          then show ?thesis using 1 by (simp add: linkOf_def replyRecord_def)
        next
          case 2
          have "\<forall>k \<in> set (keysFrom (Suc i) isUser ms). ?cm k \<noteq> None" using dom by simp
          from dist this 2 show ?thesis by (rule Cons.IH)
        qed
        then show ?thesis using r Cons by (simp add: matchStep_reply_Cons)
      qed
    qed
  qed
qed

lemma pairing_links:
  assumes "distinct (idsOf isReply msgs)" and "(r, u) \<in> set (pairing [] 0 msgs)"
  shows "linkOf (useMessageCorrelation msgs pend) r = Some u"
proof -
  let ?cm1 = "snd (forEachFrom 0 msgs numberStep (0, Map.empty))"
  have d: "distinct (keysFrom 0 isReply msgs)" using assms(1) by (rule distinct_keysFrom)
  have dom: "\<forall>k \<in> set (keysFrom 0 isUser msgs). ?cm1 k \<noteq> None"
    by (simp add: number_dom)
  have p: "(r, u) \<in> set (pairing (map fst []) 0 msgs)" using assms(2) by simp
  from match_pairing [OF d dom p] show ?thesis
    by (simp add: useMessageCorrelation_def forEach_def Let_def linkOf_pending_fun)
qed

lemma pairing_fst:
  "p \<in> set (pairing q i ms) \<Longrightarrow> fst p \<in> set (keysFrom i isReply ms)"
proof (induction ms arbitrary: q i)
  case Nil
  then show ?case by simp
next
  case (Cons m ms)
  show ?case
  proof (cases "isUser m")
    case True
    with Cons.prems have "p \<in> set (pairing (q @ [messageKey m i]) (Suc i) ms)" by simp
    then have "fst p \<in> set (keysFrom (Suc i) isReply ms)" by (rule Cons.IH)
    then show ?thesis by simp
  next
    case False
    show ?thesis
    proof (cases "isReply m")
      case nr: False
      with False Cons.prems have "p \<in> set (pairing q (Suc i) ms)" by simp
      then have "fst p \<in> set (keysFrom (Suc i) isReply ms)" by (rule Cons.IH)
      then show ?thesis by simp
    next
      case r: True
      show ?thesis
      proof (cases q)
        case Nil
        with False r Cons.prems have "p \<in> set (pairing [] (Suc i) ms)" by simp
        then have "fst p \<in> set (keysFrom (Suc i) isReply ms)" by (rule Cons.IH)
        then show ?thesis by simp
      next
        case (Cons u rest)
        with False r Cons.prems
        consider "p = (messageKey m i, u)" | "p \<in> set (pairing rest (Suc i) ms)" by auto
        then show ?thesis
        proof cases
          case 1
          with r show ?thesis by simp
        next
          case 2
          then have "fst p \<in> set (keysFrom (Suc i) isReply ms)" by (rule Cons.IH)
          then show ?thesis by simp
        qed
      qed
    qed
  qed
qed

lemma disjoint_echoesInTurn:
  assumes "set (idsOf isUser msgs) \<inter> set (idsOf isReply msgs) = {}"
  shows "echoesInTurn msgs"
  unfolding echoesInTurn_def list_all_iff
proof (intro ballI)
  fix p assume "p \<in> set (pairing [] 0 msgs)"
  then have "fst p \<in> set (keysFrom 0 isReply msgs)" by (rule pairing_fst)
  moreover have "set (keysFrom 0 isUser msgs) \<inter> set (keysFrom 0 isReply msgs) = {}"
    using assms by (rule keysFrom_disjoint) (simp add: user_not_reply)
  ultimately have "fst p \<notin> set (userKeys msgs)" unfolding userKeys_def by blast
  then show "case p of (r, u) \<Rightarrow> r \<in> set (userKeys msgs) \<longrightarrow> r = u"
    by (cases p) simp
qed

subsection \<open>Stability\<close>

text \<open>
  C3, amended. For every log L and extension E such that, in L followed by E, the user
  messages carry pairwise distinct ids and every non-system assistant message that is
  matched to a user message and carries the id of a user message carries the id of the
  user message it is matched to: the user messages of L have the correlation numbers
  1 to N, increasing in log order, in the correlation computed for L and in the one
  computed for L followed by E.
\<close>

theorem numbering_stable:
  assumes "distinct (idsOf isUser (L @ E))" and "echoesInTurn (L @ E)"
  shows "map (\<lambda>k. map_option correlationNumber (useMessageCorrelation L pend k)) (userKeys L)
           = map Some [1 ..< Suc (length (userKeys L))]
       \<and> map (\<lambda>k. map_option correlationNumber (useMessageCorrelation (L @ E) pend k)) (userKeys L)
           = map Some [1 ..< Suc (length (userKeys L))]"
proof -
  have "distinct (idsOf isUser (L @ []))" "echoesInTurn (L @ [])"
    using assms echoesInTurn_prefix [of L E] by (auto simp: idsOf_append)
  from user_numbers_prefix [OF this, of pend] user_numbers_prefix [OF assms, of pend]
  show ?thesis by simp
qed

text \<open>
  C3, as stated, fails. When replies carry the ids of the questions and arrive in the
  other order, the second question, number 2 before, reads number 1 afterwards; and a
  second question with the id of the first one changes the number read for that id.
\<close>

theorem numbering_stable_counterexample:
  "userKeys [askMsg ''m1'', askMsg ''m2''] = [KStr ''m1'', KStr ''m2'']
   \<and> map_option correlationNumber
        (useMessageCorrelation [askMsg ''m1'', askMsg ''m2''] [] (KStr ''m2'')) = Some 2
   \<and> map_option correlationNumber
        (useMessageCorrelation ([askMsg ''m1'', askMsg ''m2''] @ [replyMsg ''m2'', replyMsg ''m1''])
           [] (KStr ''m2'')) = Some 1
   \<and> userKeys [askMsg ''m1''] = [KStr ''m1'']
   \<and> map_option correlationNumber (useMessageCorrelation [askMsg ''m1''] [] (KStr ''m1'')) = Some 1
   \<and> map_option correlationNumber
        (useMessageCorrelation ([askMsg ''m1''] @ [askMsg ''m1'']) [] (KStr ''m1'')) = Some 2"
  by (simp add: correlation_eval userKeys_def isUser_def)

theorem numbering_stable_witness:
  "distinct (idsOf isUser ([askMsg ''m1'', askMsg ''m2''] @ logEcho))
   \<and> echoesInTurn ([askMsg ''m1'', askMsg ''m2''] @ logEcho)
   \<and> set (idsOf isUser ([askMsg ''m1'', askMsg ''m2''] @ logEcho))
       \<inter> set (idsOf isReply ([askMsg ''m1'', askMsg ''m2''] @ logEcho)) = {''m1'', ''m2''}
   \<and> map (\<lambda>k. map_option correlationNumber (useMessageCorrelation [askMsg ''m1'', askMsg ''m2''] [] k))
        [KStr ''m1'', KStr ''m2''] = [Some 1, Some 2]
   \<and> map (\<lambda>k. map_option correlationNumber
          (useMessageCorrelation ([askMsg ''m1'', askMsg ''m2''] @ logEcho) [] k))
        [KStr ''m1'', KStr ''m2''] = [Some 1, Some 2]"
proof -
  let ?L = "[askMsg ''m1'', askMsg ''m2'']"
  have d: "distinct (idsOf isUser (?L @ logEcho))"
    "set (idsOf isUser (?L @ logEcho)) \<inter> set (idsOf isReply (?L @ logEcho)) = {''m1'', ''m2''}"
    by (simp_all add: logEcho_def kind_eval truthyStr_def)
  have e: "echoesInTurn (?L @ logEcho)"
    by (simp add: echoesInTurn_def logEcho_def kind_eval userKeys_def messageKey_def)
  have k: "userKeys ?L = [KStr ''m1'', KStr ''m2'']"
    by (simp add: userKeys_def kind_eval messageKey_def)
  have n: "[1 ..< Suc (length [KStr ''m1'', KStr ''m2''])] = [1, 2]"
    by (simp add: upt_rec)
  show ?thesis
    using numbering_stable [OF d(1) e, of "[]"] d e unfolding k n by simp
qed

section \<open>Renumbering of positional keys\<close>

lemma shiftIndex_inj: "shiftIndex n j = shiftIndex n j' \<longleftrightarrow> j = j'"
  by (auto simp: shiftIndex_def)

lemma shiftIndex_hole: "shiftIndex n j \<noteq> n"
  by (auto simp: shiftIndex_def)

lemma shiftKey_inj: "shiftKey n k = shiftKey n k' \<longleftrightarrow> k = k'"
  by (cases k; cases k') (simp_all add: shiftKey_def shiftIndex_inj)

lemma shiftKey_hole: "shiftKey n k \<noteq> KNum n"
  by (cases k) (simp_all add: shiftKey_def shiftIndex_hole)

lemma shiftKey_KStr [simp]: "shiftKey n (KStr s) = KStr s"
  by (simp add: shiftKey_def)

lemma messageKey_shift: "messageKey m (shiftIndex n j) = shiftKey n (messageKey m j)"
  by (simp add: messageKey_def shiftKey_def split: option.splits)

lemma shiftRecord_simps [simp]:
  "shiftRecord n (userRecord c) = userRecord c"
  "shiftRecord n (pendingRecord c p) = pendingRecord c p"
  "shiftRecord n (replyRecord (k, c)) = replyRecord (shiftKey n k, c)"
  "correlationNumber (shiftRecord n d) = correlationNumber d"
  by (simp_all add: shiftRecord_def userRecord_def pendingRecord_def replyRecord_def)

lemma shifted_empty: "shifted n Map.empty Map.empty"
  by (simp add: shifted_def)

lemma shifted_upd:
  assumes "shifted n cm cm'"
  shows "shifted n (cm(shiftKey n k \<mapsto> shiftRecord n v)) (cm'(k \<mapsto> v))"
  using assms shiftKey_hole [of n k] by (auto simp: shifted_def shiftKey_inj)

lemma shifted_lookup: "shifted n cm cm' \<Longrightarrow> cm (shiftKey n k) = map_option (shiftRecord n) (cm' k)"
  by (simp add: shifted_def)

section \<open>The three passes commute with the renumbering\<close>

lemma sim_number:
  assumes "shifted n cm cm'" and "\<forall>t < length ms. shiftIndex n (i' + t) = i + t"
  shows "fst (forEachFrom i ms numberStep (c, cm)) = fst (forEachFrom i' ms numberStep (c, cm'))
       \<and> shifted n (snd (forEachFrom i ms numberStep (c, cm))) (snd (forEachFrom i' ms numberStep (c, cm')))"
  using assms
proof (induction ms arbitrary: i i' c cm cm')
  case Nil
  then show ?case by simp
next
  case (Cons m ms)
  from Cons.prems(2) have i: "shiftIndex n i' = i" by force
  have key: "messageKey m i = shiftKey n (messageKey m i')"
    by (simp add: messageKey_shift [symmetric] i)
  have tl: "\<forall>t < length ms. shiftIndex n (Suc i' + t) = Suc i + t"
    using Cons.prems(2) by force
  show ?case
  proof (cases "isUser m")
    case True
    have rel: "shifted n (cm(messageKey m i \<mapsto> userRecord (Suc c))) (cm'(messageKey m i' \<mapsto> userRecord (Suc c)))"
      using shifted_upd [OF Cons.prems(1), of "messageKey m i'" "userRecord (Suc c)"]
      by (simp add: key)
    show ?thesis
      unfolding forEachFrom_Cons numberStep_user [OF True]
      by (rule Cons.IH [OF rel tl])
  next
    case False
    show ?thesis
      unfolding forEachFrom_Cons numberStep_other [OF False]
      by (rule Cons.IH [OF Cons.prems(1) tl])
  qed
qed

lemma sim_match:
  assumes "shifted n cm cm'" and "\<forall>t < length ms. shiftIndex n (i' + t) = i + t"
  shows "fst (forEachFrom i ms matchStep (map (apfst (shiftKey n)) q', cm))
           = map (apfst (shiftKey n)) (fst (forEachFrom i' ms matchStep (q', cm')))
       \<and> shifted n (snd (forEachFrom i ms matchStep (map (apfst (shiftKey n)) q', cm)))
            (snd (forEachFrom i' ms matchStep (q', cm')))"
  using assms
proof (induction ms arbitrary: i i' q' cm cm')
  case Nil
  then show ?case by simp
next
  case (Cons m ms)
  from Cons.prems(2) have i: "shiftIndex n i' = i" by force
  have key: "messageKey m i = shiftKey n (messageKey m i')"
    by (simp add: messageKey_shift [symmetric] i)
  have tl: "\<forall>t < length ms. shiftIndex n (Suc i' + t) = Suc i + t"
    using Cons.prems(2) by force
  let ?q = "map (apfst (shiftKey n)) q'"
  show ?case
  proof (cases "isUser m")
    case True
    show ?thesis
    proof (cases "cm' (messageKey m i')")
      case None
      then have "cm (messageKey m i) = None"
        using shifted_lookup [OF Cons.prems(1), of "messageKey m i'"] by (simp add: key)
      then have s1: "matchStep (?q, cm) m i = (?q, cm)"
        using True by (rule matchStep_user_None [rotated])
      have s2: "matchStep (q', cm') m i' = (q', cm')"
        using True None by (rule matchStep_user_None)
      show ?thesis unfolding forEachFrom_Cons s1 s2 by (rule Cons.IH [OF Cons.prems(1) tl])
    next
      case (Some d)
      then have "cm (messageKey m i) = Some (shiftRecord n d)"
        using shifted_lookup [OF Cons.prems(1), of "messageKey m i'"] by (simp add: key)
      then have s1: "matchStep (?q, cm) m i
          = (map (apfst (shiftKey n)) (q' @ [(messageKey m i', correlationNumber d)]), cm)"
        using True by (simp add: matchStep_user key)
      have s2: "matchStep (q', cm') m i' = (q' @ [(messageKey m i', correlationNumber d)], cm')"
        using True Some by (rule matchStep_user)
      show ?thesis unfolding forEachFrom_Cons s1 s2 by (rule Cons.IH [OF Cons.prems(1) tl])
    qed
  next
    case nu: False
    show ?thesis
    proof (cases "isReply m")
      case False
      have s1: "matchStep (?q, cm) m i = (?q, cm)" using nu False by (rule matchStep_other)
      have s2: "matchStep (q', cm') m i' = (q', cm')" using nu False by (rule matchStep_other)
      show ?thesis unfolding forEachFrom_Cons s1 s2 by (rule Cons.IH [OF Cons.prems(1) tl])
    next
      case True
      show ?thesis
      proof (cases q')
        case Nil
        have s1: "matchStep (?q, cm) m i = (map (apfst (shiftKey n)) [], cm)"
          using True Nil by (simp add: matchStep_reply_Nil)
        have s2: "matchStep (q', cm') m i' = ([], cm')"
          using True Nil by (simp add: matchStep_reply_Nil)
        show ?thesis unfolding forEachFrom_Cons s1 s2 by (rule Cons.IH [OF Cons.prems(1) tl])
      next
        case (Cons e rest)
        obtain k c where e: "e = (k, c)" by (cases e)
        have rel: "shifted n (cm(messageKey m i \<mapsto> replyRecord (shiftKey n k, c)))
                (cm'(messageKey m i' \<mapsto> replyRecord (k, c)))"
          using shifted_upd [OF Cons.prems(1), of "messageKey m i'" "replyRecord (k, c)"]
          by (simp add: key)
        have s1: "matchStep (?q, cm) m i
            = (map (apfst (shiftKey n)) rest, cm(messageKey m i \<mapsto> replyRecord (shiftKey n k, c)))"
          using True Cons e by (simp add: matchStep_reply_Cons)
        have s2: "matchStep (q', cm') m i' = (rest, cm'(messageKey m i' \<mapsto> replyRecord (k, c)))"
          using True Cons e by (simp add: matchStep_reply_Cons)
        show ?thesis unfolding forEachFrom_Cons s1 s2 by (rule Cons.IH [OF rel tl])
      qed
    qed
  qed
qed

lemma sim_pending:
  assumes "shifted n cm cm'"
  shows "shifted n (snd (foldl pendingStep (c, cm) pend)) (snd (foldl pendingStep (c, cm') pend))"
  using assms
proof (induction pend arbitrary: c cm cm')
  case Nil
  then show ?case by simp
next
  case (Cons e pend)
  obtain i p where e: "e = (i, p)" by (cases e)
  have same: "cm (KStr i) = None \<longleftrightarrow> cm' (KStr i) = None"
    using shifted_lookup [OF Cons.prems, of "KStr i"] by simp
  show ?case
  proof (cases "cm' (KStr i) = None")
    case True
    then have T: "cm (KStr i) = None" using same by simp
    have rel: "shifted n (cm(KStr i \<mapsto> pendingRecord (Suc c) p)) (cm'(KStr i \<mapsto> pendingRecord (Suc c) p))"
      using shifted_upd [OF Cons.prems, of "KStr i" "pendingRecord (Suc c) p"] by simp
    have s1: "pendingStep (c, cm) (i, p) = (Suc c, cm(KStr i \<mapsto> pendingRecord (Suc c) p))"
      using T by (rule pendingStep_new)
    have s2: "pendingStep (c, cm') (i, p) = (Suc c, cm'(KStr i \<mapsto> pendingRecord (Suc c) p))"
      using True by (rule pendingStep_new)
    show ?thesis
      unfolding e foldl_Cons s1 s2 by (rule Cons.IH [OF rel])
  next
    case False
    then have F: "cm (KStr i) \<noteq> None" using same by simp
    have s1: "pendingStep (c, cm) (i, p) = (c, cm)" using F by (rule pendingStep_old)
    have s2: "pendingStep (c, cm') (i, p) = (c, cm')" using False by (rule pendingStep_old)
    show ?thesis
      unfolding e foldl_Cons s1 s2 by (rule Cons.IH [OF Cons.prems])
  qed
qed

section \<open>System notices\<close>

lemma forEachFrom_append:
  "forEachFrom i (xs @ ys) f st = forEachFrom (i + length xs) ys f (forEachFrom i xs f st)"
  by (induction xs arbitrary: i st) simp_all

lemma notice_kind: "isSystemNotice s \<Longrightarrow> \<not> isUser s \<and> \<not> isReply s"
  by (auto simp: isSystemNotice_def isUser_def isReply_def)

lemma notice_step: "isSystemNotice s \<Longrightarrow> matchStep st s i = st"
  using matchStep_other [of s "fst st" "snd st" i] notice_kind [of s] by simp

lemma shiftIndex_below: "\<forall>t < n. shiftIndex n (0 + t) = 0 + t"
  by (simp add: shiftIndex_def)

lemma shiftIndex_above: "\<forall>t < l. shiftIndex n (n + t) = Suc n + t"
  by (simp add: shiftIndex_def)

lemma sim_number_notice:
  assumes "isSystemNotice s"
  shows "fst (forEachFrom 0 (xs @ s # ys) numberStep (0, Map.empty))
           = fst (forEachFrom 0 (xs @ ys) numberStep (0, Map.empty))
       \<and> shifted (length xs) (snd (forEachFrom 0 (xs @ s # ys) numberStep (0, Map.empty)))
            (snd (forEachFrom 0 (xs @ ys) numberStep (0, Map.empty)))"
proof -
  let ?n = "length xs"
  obtain c cm where st: "forEachFrom 0 xs numberStep (0, Map.empty) = (c, cm)"
    by (cases "forEachFrom 0 xs numberStep (0, Map.empty)")
  have "shifted ?n (snd (forEachFrom 0 xs numberStep (0, Map.empty)))
          (snd (forEachFrom 0 xs numberStep (0, Map.empty)))"
    using sim_number [OF shifted_empty, of xs ?n 0 0 0] shiftIndex_below [of ?n] by simp
  then have rel: "shifted ?n cm cm" by (simp add: st)
  have s: "numberStep (c, cm) s ?n = (c, cm)"
    using assms by (simp add: numberStep_other notice_kind)
  show ?thesis
    using sim_number [OF rel, of ys ?n "Suc ?n" c] shiftIndex_above [of "length ys" ?n]
    by (simp add: forEachFrom_append st s)
qed

lemma sim_match_notice:
  assumes "isSystemNotice s" and "shifted (length xs) cm cm'"
  shows "shifted (length xs) (snd (forEachFrom 0 (xs @ s # ys) matchStep ([], cm)))
            (snd (forEachFrom 0 (xs @ ys) matchStep ([], cm')))"
proof -
  let ?n = "length xs"
  obtain q1 cm1 where st1: "forEachFrom 0 xs matchStep ([], cm) = (q1, cm1)"
    by (cases "forEachFrom 0 xs matchStep ([], cm)")
  obtain q2 cm2 where st2: "forEachFrom 0 xs matchStep ([], cm') = (q2, cm2)"
    by (cases "forEachFrom 0 xs matchStep ([], cm')")
  have "fst (forEachFrom 0 xs matchStep (map (apfst (shiftKey ?n)) [], cm))
           = map (apfst (shiftKey ?n)) (fst (forEachFrom 0 xs matchStep ([], cm')))
       \<and> shifted ?n (snd (forEachFrom 0 xs matchStep (map (apfst (shiftKey ?n)) [], cm)))
            (snd (forEachFrom 0 xs matchStep ([], cm')))"
    by (rule sim_match [OF assms(2)]) (rule shiftIndex_below)
  then have q: "q1 = map (apfst (shiftKey ?n)) q2" and rel: "shifted ?n cm1 cm2"
    by (simp_all add: st1 st2)
  have s: "matchStep (q1, cm1) s ?n = (q1, cm1)" using assms(1) by (rule notice_step)
  have "shifted ?n (snd (forEachFrom (Suc ?n) ys matchStep (map (apfst (shiftKey ?n)) q2, cm1)))
            (snd (forEachFrom ?n ys matchStep (q2, cm2)))"
    using sim_match [OF rel, of ys ?n "Suc ?n" q2] shiftIndex_above [of "length ys" ?n] by simp
  then show ?thesis
    using s by (simp add: forEachFrom_append st1 st2 q)
qed

lemma correlation_shifted:
  assumes "isSystemNotice s"
  shows "shifted (length xs) (useMessageCorrelation (xs @ s # ys) pend)
           (useMessageCorrelation (xs @ ys) pend)"
proof -
  note n = sim_number_notice [OF assms, of xs ys]
  from n have c: "fst (forEachFrom 0 (xs @ s # ys) numberStep (0, Map.empty))
           = fst (forEachFrom 0 (xs @ ys) numberStep (0, Map.empty))" by simp
  from n have "shifted (length xs) (snd (forEachFrom 0 (xs @ s # ys) numberStep (0, Map.empty)))
            (snd (forEachFrom 0 (xs @ ys) numberStep (0, Map.empty)))" by simp
  from sim_match_notice [OF assms this, of ys]
  show ?thesis
    unfolding useMessageCorrelation_def forEach_def Let_def fst_conv snd_conv c
    by (rule sim_pending)
qed

lemma linkOf_shifted:
  "shifted n cm cm' \<Longrightarrow> linkOf cm (shiftKey n k) = map_option (shiftKey n) (linkOf cm' k)"
  by (cases "cm' k") (simp_all add: shifted_lookup linkOf_def shiftRecord_def)

text \<open>
  C2. For every log and every system notice in it, wherever it stands: the matching step
  of the notice leaves the queue and the map as they are, so the notice takes no slot
  and is given no link; the correlation computed for the log is the one computed for the
  log without the notice, the positional keys behind the notice moved by one place; no
  record is stored under the position of the notice; and every other message carries
  the same reply-to link, renumbered in the same way, with and without the notice.
\<close>

theorem notice_takes_no_slot:
  assumes "isSystemNotice s"
  shows "(\<forall>st i. matchStep st s i = st)
       \<and> (\<forall>k. useMessageCorrelation (xs @ s # ys) pend (shiftKey (length xs) k)
                = map_option (shiftRecord (length xs)) (useMessageCorrelation (xs @ ys) pend k))
       \<and> useMessageCorrelation (xs @ s # ys) pend (KNum (length xs)) = None
       \<and> (\<forall>j < length (xs @ ys).
            linkOf (useMessageCorrelation (xs @ s # ys) pend)
                (messageKey ((xs @ ys) ! j) (shiftIndex (length xs) j))
              = map_option (shiftKey (length xs))
                  (linkOf (useMessageCorrelation (xs @ ys) pend) (messageKey ((xs @ ys) ! j) j)))"
proof -
  note rel = correlation_shifted [OF assms, of xs ys pend]
  show ?thesis
    using rel notice_step [OF assms] linkOf_shifted [OF rel]
    by (simp add: shifted_def messageKey_shift)
qed

theorem notice_takes_no_slot_witness:
  "isSystemNotice (noticeMsg None)
   \<and> linkOf (useMessageCorrelation ([askMsg ''m1''] @ noticeMsg None # logNotice) []) (KStr ''r1'')
       = Some (KStr ''m1'')
   \<and> linkOf (useMessageCorrelation ([askMsg ''m1''] @ logNotice) []) (KStr ''r1'')
       = Some (KStr ''m1'')
   \<and> linkOf (useMessageCorrelation ([askMsg ''m1''] @ noticeMsg None # logNotice) []) (KStr ''r2'')
       = Some (KNum 2)
   \<and> linkOf (useMessageCorrelation ([askMsg ''m1''] @ logNotice) []) (KStr ''r2'')
       = Some (KNum 1)
   \<and> useMessageCorrelation ([askMsg ''m1''] @ noticeMsg None # logNotice) [] (KNum 1) = None"
proof -
  let ?xs = "[askMsg ''m1'']"
  let ?A = "useMessageCorrelation (?xs @ noticeMsg None # logNotice) []"
  let ?B = "useMessageCorrelation (?xs @ logNotice) []"
  have n: "isSystemNotice (noticeMsg None)" by (simp add: kind_eval)
  have e: "linkOf ?B (KStr ''r1'') = Some (KStr ''m1'')" "linkOf ?B (KStr ''r2'') = Some (KNum 1)"
    by (simp_all add: logNotice_def correlation_eval)
  have k: "messageKey ((?xs @ logNotice) ! 2) 2 = KStr ''r1''"
    "messageKey ((?xs @ logNotice) ! 3) 3 = KStr ''r2''"
    "messageKey ((?xs @ logNotice) ! 2) (shiftIndex (length ?xs) 2) = KStr ''r1''"
    "messageKey ((?xs @ logNotice) ! 3) (shiftIndex (length ?xs) 3) = KStr ''r2''"
    by (simp_all add: logNotice_def messageKey_def replyMsg_def numeral_3_eq_3)
  have s: "map_option (shiftKey (length ?xs)) (Some (KStr ''m1'')) = Some (KStr ''m1'')"
    "map_option (shiftKey (length ?xs)) (Some (KNum 1)) = Some (KNum 2)"
    by (simp_all add: shiftKey_def shiftIndex_def)
  have l: "2 < length (?xs @ logNotice)" "3 < length (?xs @ logNotice)"
    by (simp_all add: logNotice_def)
  note T = notice_takes_no_slot [OF n, of ?xs logNotice "[]"]
  from T have L: "j < length (?xs @ logNotice) \<Longrightarrow>
      linkOf ?A (messageKey ((?xs @ logNotice) ! j) (shiftIndex (length ?xs) j))
        = map_option (shiftKey (length ?xs)) (linkOf ?B (messageKey ((?xs @ logNotice) ! j) j))" for j
    by blast
  from T have H: "?A (KNum (length ?xs)) = None" by blast
  have r1: "linkOf ?A (KStr ''r1'') = Some (KStr ''m1'')"
    using L [OF l(1)] unfolding k e s .
  have r2: "linkOf ?A (KStr ''r2'') = Some (KNum 2)"
    using L [OF l(2)] unfolding k e s .
  show ?thesis using n e r1 r2 H by simp
qed

section \<open>Steps of the older variant\<close>

lemma lastUserStep_user:
  "isUser m \<Longrightarrow> cm (messageKey m i) = Some d \<Longrightarrow>
   lastUserStep (l, n, cm) m i = (Some (messageKey m i), correlationNumber d, cm)"
  by (simp add: lastUserStep_def isUser_def)

lemma lastUserStep_user_map: "isUser m \<Longrightarrow> snd (snd (lastUserStep (l, n, cm) m i)) = cm"
  by (simp add: lastUserStep_def isUser_def split: option.splits)

lemma lastUserStep_assistant_None:
  "role m = Assistant \<Longrightarrow> lastUserStep (None, n, cm) m i = (None, n, cm)"
  by (simp add: lastUserStep_def)

lemma lastUserStep_reply:
  "isReply m \<Longrightarrow> truthy (Some k) \<Longrightarrow>
   lastUserStep (Some k, n, cm) m i = (Some k, n, cm(messageKey m i \<mapsto> replyRecord (k, n)))"
  by (simp add: lastUserStep_def isReply_def)

lemma matchStep_assistant_Nil: "role m = Assistant \<Longrightarrow> matchStep ([], cm) m i = ([], cm)"
  by (simp add: matchStep_def)

lemma matchStep_user_map: "isUser m \<Longrightarrow> snd (matchStep (q, cm) m i) = cm"
  by (simp add: matchStep_def isUser_def split: option.splits)

lemma leading_v1:
  "\<forall>m \<in> set ms. role m = Assistant \<Longrightarrow> forEachFrom i ms lastUserStep (None, n, cm) = (None, n, cm)"
  by (induction ms arbitrary: i) (simp_all add: lastUserStep_assistant_None)

lemma leading_v2:
  "\<forall>m \<in> set ms. role m = Assistant \<Longrightarrow> forEachFrom i ms matchStep ([], cm) = ([], cm)"
  by (induction ms arbitrary: i) (simp_all add: matchStep_assistant_Nil)

lemma users_v1:
  "list_all isUser ms \<Longrightarrow> snd (snd (forEachFrom i ms lastUserStep (l, n, cm))) = cm"
proof (induction ms arbitrary: i l n)
  case Nil
  then show ?case by simp
next
  case (Cons m ms)
  obtain l' n' cm' where st: "lastUserStep (l, n, cm) m i = (l', n', cm')"
    by (cases "lastUserStep (l, n, cm) m i")
  with Cons.prems lastUserStep_user_map [of m l n cm i] have "cm' = cm" by simp
  with Cons st show ?case by simp
qed

lemma users_v2:
  "list_all isUser ms \<Longrightarrow> snd (forEachFrom i ms matchStep (q, cm)) = cm"
proof (induction ms arbitrary: i q)
  case Nil
  then show ?case by simp
next
  case (Cons m ms)
  obtain q' cm' where st: "matchStep (q, cm) m i = (q', cm')"
    by (cases "matchStep (q, cm) m i")
  with Cons.prems matchStep_user_map [of m q cm i] have "cm' = cm" by simp
  with Cons st show ?case by simp
qed

section \<open>The two variants compared\<close>

lemma truthy_messageKey: "truthy (Some (messageKey m i)) \<longleftrightarrow> i \<noteq> 0 \<or> truthyStr (message_id m)"
  by (auto simp: messageKey_def truthyStr_def split: option.splits)

lemma pairs_agree:
  assumes "pairsThenUsers ms"
    and "\<forall>k \<in> set (keysFrom i isUser ms). cm k \<noteq> None"
    and "i = 0 \<longrightarrow> ms \<noteq> [] \<longrightarrow> truthyStr (message_id (hd ms))"
  shows "snd (snd (forEachFrom i ms lastUserStep (l, n, cm))) = snd (forEachFrom i ms matchStep ([], cm))"
  using assms
proof (induction ms arbitrary: i l n cm rule: pairsThenUsers.induct)
  case 1
  then show ?case by simp
next
  case (2 m)
  then show ?case by (simp add: lastUserStep_user_map matchStep_user_map)
next
  case (3 m r ms)
  from "3.prems"(1) have um: "isUser m" by simp
  with "3.prems"(2) obtain d where d: "cm (messageKey m i) = Some d" by auto
  let ?k = "messageKey m i"
  have s1: "lastUserStep (l, n, cm) m i = (Some ?k, correlationNumber d, cm)"
    using um d by (rule lastUserStep_user)
  have s2: "matchStep ([], cm) m i = ([(?k, correlationNumber d)], cm)"
    using um d by (simp add: matchStep_user)
  show ?case
  proof (cases "isReply r \<and> pairsThenUsers ms")
    case True
    have t: "truthy (Some ?k)" using "3.prems"(3) by (auto simp: truthy_messageKey)
    let ?cm = "cm(messageKey r (Suc i) \<mapsto> replyRecord (?k, correlationNumber d))"
    have r1: "lastUserStep (Some ?k, correlationNumber d, cm) r (Suc i)
                = (Some ?k, correlationNumber d, ?cm)"
      using True t by (simp add: lastUserStep_reply)
    have r2: "matchStep ([(?k, correlationNumber d)], cm) r (Suc i) = ([], ?cm)"
      using True by (simp add: matchStep_reply_Cons)
    have nr: "\<not> isUser r" using True user_not_reply by blast
    have dom: "\<forall>k \<in> set (keysFrom (Suc (Suc i)) isUser ms). ?cm k \<noteq> None"
      using "3.prems"(2) um nr by auto
    have "snd (snd (forEachFrom (Suc (Suc i)) ms lastUserStep (Some ?k, correlationNumber d, ?cm)))
        = snd (forEachFrom (Suc (Suc i)) ms matchStep ([], ?cm))"
      using True dom by (intro "3.IH") simp_all
    then show ?thesis by (simp add: s1 s2 r1 r2)
  next
    case False
    with "3.prems"(1) have all: "list_all isUser (r # ms)" by auto
    show ?thesis
      unfolding forEachFrom_Cons [of i m] s1 s2
      using users_v1 [OF all] users_v2 [OF all] by simp
  qed
qed

lemma variants_agree:
  assumes "alternating msgs"
  shows "useMessageCorrelation_v1 msgs pend = useMessageCorrelation msgs pend"
proof -
  let ?P = "\<lambda>m. role m = Assistant"
  let ?A = "takeWhile ?P msgs"
  let ?B = "dropWhile ?P msgs"
  let ?cm1 = "snd (forEachFrom 0 msgs numberStep (0, Map.empty))"
  have split: "msgs = ?A @ ?B" by simp
  have lead: "\<forall>m \<in> set ?A. role m = Assistant" by (auto dest: set_takeWhileD)
  have pt: "pairsThenUsers ?B" using assms by (simp add: alternating_def)
  have sub: "set (keysFrom (length ?A) isUser ?B) \<subseteq> set (keysFrom 0 isUser msgs)"
  proof -
    have "keysFrom 0 isUser (?A @ ?B) = keysFrom 0 isUser ?A @ keysFrom (0 + length ?A) isUser ?B"
      by (rule keysFrom_append)
    then show ?thesis by simp
  qed
  have dom: "\<forall>k \<in> set (keysFrom (length ?A) isUser ?B). ?cm1 k \<noteq> None"
    using sub number_dom by blast
  have tr: "length ?A = 0 \<longrightarrow> ?B \<noteq> [] \<longrightarrow> truthyStr (message_id (hd ?B))"
  proof (intro impI)
    assume a: "length ?A = 0" and b: "?B \<noteq> []"
    from a have eq: "?B = msgs" using split by simp
    from b have "\<not> ?P (hd ?B)" by (rule hd_dropWhile)
    then have "isUser (hd msgs)" unfolding eq isUser_def by (cases "role (hd msgs)") simp_all
    with assms b show "truthyStr (message_id (hd ?B))" unfolding eq by (simp add: alternating_def)
  qed
  have "snd (snd (forEachFrom (length ?A) ?B lastUserStep (None, 0, ?cm1)))
        = snd (forEachFrom (length ?A) ?B matchStep ([], ?cm1))"
    using pt dom tr by (rule pairs_agree)
  moreover have "forEachFrom 0 msgs lastUserStep (None, 0, ?cm1)
      = forEachFrom (length ?A) ?B lastUserStep (None, 0, ?cm1)"
    using forEachFrom_append [of 0 ?A ?B lastUserStep "(None, 0, ?cm1)"]
    by (simp add: leading_v1 [OF lead])
  moreover have "forEachFrom 0 msgs matchStep ([], ?cm1)
      = forEachFrom (length ?A) ?B matchStep ([], ?cm1)"
    using forEachFrom_append [of 0 ?A ?B matchStep "([], ?cm1)"]
    by (simp add: leading_v2 [OF lead])
  ultimately have "snd (snd (forEachFrom 0 msgs lastUserStep (None, 0, ?cm1)))
        = snd (forEachFrom 0 msgs matchStep ([], ?cm1))"
    by simp
  then show ?thesis
    by (simp add: useMessageCorrelation_v1_def useMessageCorrelation_def forEach_def Let_def)
qed

text \<open>
  C10, amended. The two variants of useMessageCorrelation compute equal correlation maps
  for every pending set and every log that consists of assistant messages, then pairs of
  a user message and a non-system assistant reply, then user messages only, and that
  does not start with a user message without id.
\<close>

theorem variants_agree_when_alternating:
  "alternating msgs \<longrightarrow> useMessageCorrelation_v1 msgs pend = useMessageCorrelation msgs pend"
  using variants_agree by blast

text \<open>
  C10, as stated, fails. With two questions open the older variant links the first reply
  to the latest question and the current one to the oldest; the older variant links a
  system notice, the current one does not; and the older variant links nothing to a
  first question without id.
\<close>

theorem variants_differ_counterexample:
  "linkOf (useMessageCorrelation_v1 [askMsg ''m1'', askMsg ''m2'', replyMsg ''r1'', replyMsg ''r2''] [])
       (KStr ''r1'') = Some (KStr ''m2'')
   \<and> linkOf (useMessageCorrelation [askMsg ''m1'', askMsg ''m2'', replyMsg ''r1'', replyMsg ''r2''] [])
       (KStr ''r1'') = Some (KStr ''m1'')
   \<and> linkOf (useMessageCorrelation_v1 [askMsg ''m1'', noticeMsg (Some ''n1'')] []) (KStr ''n1'')
       = Some (KStr ''m1'')
   \<and> useMessageCorrelation [askMsg ''m1'', noticeMsg (Some ''n1'')] [] (KStr ''n1'') = None
   \<and> useMessageCorrelation_v1 [askMsg '''', replyMsg ''r1''] [] (KStr ''r1'') = None
   \<and> linkOf (useMessageCorrelation [askMsg '''', replyMsg ''r1''] []) (KStr ''r1'') = Some (KNum 0)"
  by (simp add: correlation_eval useMessageCorrelation_v1_def lastUserStep_def)

lemma logAlternating_ok: "alternating logAlternating"
  by (simp add: alternating_def logAlternating_def kind_eval truthyStr_def)

theorem variants_agree_when_alternating_witness:
  "alternating logAlternating
   \<and> useMessageCorrelation_v1 logAlternating [] = useMessageCorrelation logAlternating []
   \<and> linkOf (useMessageCorrelation logAlternating []) (KStr ''r2'') = Some (KNum 4)"
proof -
  have "linkOf (useMessageCorrelation logAlternating []) (KStr ''r2'') = Some (KNum 4)"
    by (simp add: logAlternating_def correlation_eval)
  then show ?thesis
    using variants_agree_when_alternating [of logAlternating "[]"] logAlternating_ok by simp
qed

end
